theory Spec2Isabelle
  imports Main "HOL-Library.Multiset" "HOL-Library.Sublist"
begin

section \<open>Coverage attribution tools: data model\<close>

text \<open>
  The tools under \<^verbatim>\<open>tools/\<close> are Python scripts. Python integers are unbounded and are
  modelled by \<^typ>\<open>int\<close>; a Python \<^verbatim>\<open>str\<close> is modelled by \<^typ>\<open>string\<close>, one
  \<^typ>\<open>char\<close> per code point (code points below 256). Exceptions are values of
  \<open>py_error\<close>, returned on the left of a sum.
\<close>

datatype py_error = KeyError string | IndexError | ValueError string | RuntimeError string

text \<open>
  The dictionaries that \<^verbatim>\<open>find_functions\<close> appends to \<^verbatim>\<open>funcs\<close>:
  \<^verbatim>\<open>{'name': fname, 'start': i+1, 'body_start': brace_line+1, 'end': end_line+1}\<close>.
\<close>

record func =
  f_name :: string
  f_start :: int
  f_body_start :: int
  f_end :: int

text \<open>
  The values of \<^verbatim>\<open>func_map\<close>:
  \<^verbatim>\<open>{'start': f['start'], 'end': f['end'], 'uncovered_lines': []}\<close>.
\<close>

record func_data =
  d_start :: int
  d_end :: int
  d_uncovered_lines :: "int list"

text \<open>The entries of the list \<^verbatim>\<open>result\<close> that \<^verbatim>\<open>map_uncovered_to_functions\<close> returns.\<close>

record func_report =
  r_name :: string
  r_start :: int
  r_end :: int
  r_uncovered_count :: int
  r_uncovered_lines :: "int list"

section \<open>\<^verbatim>\<open>map_uncovered_to_functions\<close>\<close>

text \<open>
  A Python \<^verbatim>\<open>dict\<close> keeps its keys in insertion order, and assigning to a key that is
  already present replaces the value where the key stands. It is modelled by an
  association list; \<open>dict_set\<close> is \<^verbatim>\<open>d[k] = v\<close>.
\<close>

fun dict_set :: "'k \<Rightarrow> 'v \<Rightarrow> ('k \<times> 'v) list \<Rightarrow> ('k \<times> 'v) list" where
  "dict_set k v [] = [(k, v)]"
| "dict_set k v (p # ps) = (if fst p = k then (k, v) # ps else p # dict_set k v ps)"

text \<open>
  \<^verbatim>\<open>
  func_map = {}
  for f in funcs:
      func_map[f['name']] = { 'start': f['start'], 'end': f['end'], 'uncovered_lines': [] }
  \<close>
\<close>

fun init_func_map :: "func list \<Rightarrow> (string \<times> func_data) list \<Rightarrow> (string \<times> func_data) list" where
  "init_func_map [] func_map = func_map"
| "init_func_map (f # fs) func_map =
     init_func_map fs
       (dict_set (f_name f) \<lparr>d_start = f_start f, d_end = f_end f, d_uncovered_lines = []\<rparr> func_map)"

text \<open>
  The inner loop, which stops at the first span containing the line:
  \<^verbatim>\<open>
  for f in funcs:
      if ln >= f['start'] and ln <= f['end']:
          ...
          matched = True
          break
  \<close>
  \<open>first_match\<close> returns the span at which the loop breaks, or \<open>None\<close> when it runs to
  the end with \<^verbatim>\<open>matched\<close> still false.
\<close>

fun first_match :: "int \<Rightarrow> func list \<Rightarrow> func option" where
  "first_match ln [] = None"
| "first_match ln (f # fs) =
     (if ln \<ge> f_start f \<and> ln \<le> f_end f then Some f else first_match ln fs)"

text \<open>
  The outer loop over \<^verbatim>\<open>uncovered_lines\<close>, threading \<^verbatim>\<open>func_map\<close> and \<^verbatim>\<open>others\<close>.
  \<^verbatim>\<open>func_map[f['name']]['uncovered_lines'].append(ln)\<close> looks the name up, which raises
  \<^verbatim>\<open>KeyError\<close> for a missing key, and appends to the list stored there.
\<close>

fun attribute ::
  "int list \<Rightarrow> func list \<Rightarrow> (string \<times> func_data) list \<Rightarrow> int list
     \<Rightarrow> py_error + ((string \<times> func_data) list \<times> int list)" where
  "attribute [] funcs func_map others = Inr (func_map, others)"
| "attribute (ln # lns) funcs func_map others =
     (case first_match ln funcs of
        Some f \<Rightarrow>
          (case map_of func_map (f_name f) of
             None \<Rightarrow> Inl (KeyError (f_name f))
           | Some d \<Rightarrow>
               attribute lns funcs
                 (dict_set (f_name f) (d\<lparr>d_uncovered_lines := d_uncovered_lines d @ [ln]\<rparr>) func_map)
                 others)
      | None \<Rightarrow> attribute lns funcs func_map (others @ [ln]))"

text \<open>
  \<^verbatim>\<open>
  result = []
  for name, data in func_map.items():
      lines = sorted(data['uncovered_lines'])
      result.append({'name': name, 'start': data['start'], 'end': data['end'],
                     'uncovered_count': len(lines), 'uncovered_lines': lines})
  \<close>
\<close>

definition report_of :: "string \<times> func_data \<Rightarrow> func_report" where
  "report_of p =
     (let lines = sort (d_uncovered_lines (snd p))
      in \<lparr>r_name = fst p, r_start = d_start (snd p), r_end = d_end (snd p),
          r_uncovered_count = int (length lines), r_uncovered_lines = lines\<rparr>)"

definition map_uncovered_to_functions ::
  "int list \<Rightarrow> func list \<Rightarrow> py_error + (func_report list \<times> int list)" where
  "map_uncovered_to_functions uncovered_lines funcs =
     (case attribute uncovered_lines funcs (init_func_map funcs []) [] of
        Inl e \<Rightarrow> Inl e
      | Inr (func_map, others) \<Rightarrow> Inr (map report_of func_map, sort others))"

subsection \<open>What the loops compute\<close>

text \<open>
  The lines that end in the entry of name \<open>k\<close> are those whose first containing span
  carries that name; the lines that end in \<^verbatim>\<open>others\<close> are those no span contains.
\<close>

definition bucket :: "func list \<Rightarrow> string \<Rightarrow> int list \<Rightarrow> int list" where
  "bucket funcs k lns = filter (\<lambda>ln. map_option f_name (first_match ln funcs) = Some k) lns"

definition unmatched :: "func list \<Rightarrow> int list \<Rightarrow> int list" where
  "unmatched funcs lns = filter (\<lambda>ln. first_match ln funcs = None) lns"

text \<open>The entry that \<^verbatim>\<open>result\<close> holds for a key of \<^verbatim>\<open>func_map\<close>.\<close>

definition entry_for :: "func list \<Rightarrow> int list \<Rightarrow> string \<times> func_data \<Rightarrow> func_report" where
  "entry_for funcs lns p =
     \<lparr>r_name = fst p, r_start = d_start (snd p), r_end = d_end (snd p),
      r_uncovered_count = int (length (bucket funcs (fst p) lns)),
      r_uncovered_lines = sort (bucket funcs (fst p) lns)\<rparr>"

text \<open>
  The test of the inner loop, and the position of the first span of \<^verbatim>\<open>funcs\<close> that
  passes it for a line.
\<close>

definition in_span :: "func \<Rightarrow> int \<Rightarrow> bool" where
  "in_span f ln \<longleftrightarrow> f_start f \<le> ln \<and> ln \<le> f_end f"

definition first_containing :: "func list \<Rightarrow> int \<Rightarrow> nat \<Rightarrow> bool" where
  "first_containing funcs ln n \<longleftrightarrow>
     n < length funcs \<and> in_span (funcs ! n) ln \<and> (\<forall>f \<in> set (take n funcs). \<not> in_span f ln)"

subsection \<open>Properties of the attribution\<close>

lemma dict_set_keys:
  "map fst (dict_set k v m) = (if k \<in> fst ` set m then map fst m else map fst m @ [k])"
  by (induction m) auto

lemma dict_set_map_of: "map_of (dict_set k v m) = (map_of m)(k \<mapsto> v)"
  by (induction m) (auto simp: fun_eq_iff)

lemma dict_set_present:
  "distinct (map fst m) \<Longrightarrow> k \<in> fst ` set m \<Longrightarrow>
   dict_set k v m = map (\<lambda>p. if fst p = k then (k, v) else p) m"
proof (induction m)
  case Nil then show ?case by simp
next
  case (Cons p ps)
  show ?case
  proof (cases "fst p = k")
    case True
    with Cons.prems have "k \<notin> fst ` set ps" by simp
    then have "\<forall>q \<in> set ps. fst q \<noteq> k" by (metis imageI)
    then have "map (\<lambda>p. if fst p = k then (k, v) else p) ps = ps"
      by (induction ps) auto
    with True show ?thesis by simp
  next
    case False
    with Cons show ?thesis by auto
  qed
qed

lemma first_match_mem: "first_match ln funcs = Some f \<Longrightarrow> f \<in> set funcs"
  by (induction funcs) (auto split: if_splits)

lemma attribute_char:
  "distinct (map fst m) \<Longrightarrow> f_name ` set funcs \<subseteq> fst ` set m \<Longrightarrow>
   attribute lns funcs m others =
     Inr (map (\<lambda>p. (fst p, (snd p)\<lparr>d_uncovered_lines := d_uncovered_lines (snd p) @ bucket funcs (fst p) lns\<rparr>)) m,
          others @ unmatched funcs lns)"
proof (induction lns arbitrary: m others)
  case Nil
  then show ?case by (simp add: bucket_def unmatched_def)
next
  case (Cons ln lns)
  show ?case
  proof (cases "first_match ln funcs")
    case None
    then show ?thesis using Cons by (simp add: bucket_def unmatched_def)
  next
    case (Some f)
    let ?k = "f_name f"
    have kin: "?k \<in> fst ` set m" using first_match_mem[OF Some] Cons.prems(2) by auto
    then obtain d where d: "map_of m ?k = Some d"
      by (metis domD dom_map_of_conv_image_fst)
    let ?v = "d\<lparr>d_uncovered_lines := d_uncovered_lines d @ [ln]\<rparr>"
    let ?m1 = "dict_set ?k ?v m"
    have m1: "?m1 = map (\<lambda>p. if fst p = ?k then (?k, ?v) else p) m"
      by (rule dict_set_present[OF Cons.prems(1) kin])
    have keys1: "map fst ?m1 = map fst m" using kin by (simp add: dict_set_keys)
    have d1: "distinct (map fst ?m1)" using keys1 Cons.prems(1) by simp
    have s1: "f_name ` set funcs \<subseteq> fst ` set ?m1"
      using Cons.prems(2) keys1 by (metis list.set_map)
    have snd_d: "\<And>p. p \<in> set m \<Longrightarrow> fst p = ?k \<Longrightarrow> snd p = d"
      using d Cons.prems(1) by (metis map_of_is_SomeI option.inject prod.collapse)
    have "attribute (ln # lns) funcs m others = attribute lns funcs ?m1 others"
      using Some d by simp
    also have "\<dots> = Inr (map (\<lambda>p. (fst p, (snd p)\<lparr>d_uncovered_lines := d_uncovered_lines (snd p) @ bucket funcs (fst p) lns\<rparr>)) ?m1,
          others @ unmatched funcs lns)"
      by (rule Cons.IH[OF d1 s1])
    also have "map (\<lambda>p. (fst p, (snd p)\<lparr>d_uncovered_lines := d_uncovered_lines (snd p) @ bucket funcs (fst p) lns\<rparr>)) ?m1
        = map (\<lambda>p. (fst p, (snd p)\<lparr>d_uncovered_lines := d_uncovered_lines (snd p) @ bucket funcs (fst p) (ln # lns)\<rparr>)) m"
      unfolding m1 using snd_d Some by (auto simp: bucket_def)
    also have "unmatched funcs lns = unmatched funcs (ln # lns)"
      using Some by (simp add: unmatched_def)
    finally show ?thesis .
  qed
qed

lemma init_func_map_keys_set:
  "fst ` set (init_func_map fs m) = fst ` set m \<union> f_name ` set fs"
proof (induction fs arbitrary: m)
  case Nil then show ?case by simp
next
  case (Cons f fs)
  have "fst ` set (dict_set k v m) = insert k (fst ` set m)" for k and v :: func_data
    using dict_set_keys[of k v m] by (metis (no_types, lifting) Un_insert_right append_Nil2 insert_absorb list.set_map list.simps(15) set_append)
  with Cons show ?case by auto
qed

lemma init_func_map_distinct:
  "distinct (map fst m) \<Longrightarrow> distinct (map fst (init_func_map fs m))"
proof (induction fs arbitrary: m)
  case Nil then show ?case by simp
next
  case (Cons f fs)
  have "distinct (map fst (dict_set k v m))" for k and v :: func_data
    using Cons.prems by (auto simp: dict_set_keys)
  with Cons.IH show ?case by simp
qed

lemma find_app:
  "find P (xs @ ys) = (case find P xs of None \<Rightarrow> find P ys | Some x \<Rightarrow> Some x)"
  by (induction xs) auto

lemma init_func_map_lookup:
  "map_of (init_func_map fs m) k =
     (case find (\<lambda>f. f_name f = k) (rev fs) of
        Some f \<Rightarrow> Some \<lparr>d_start = f_start f, d_end = f_end f, d_uncovered_lines = []\<rparr>
      | None \<Rightarrow> map_of m k)"
proof (induction fs arbitrary: m)
  case Nil then show ?case by simp
next
  case (Cons f fs)
  show ?case
    by (simp add: Cons.IH dict_set_map_of find_app split: option.splits)
qed

lemma dict_set_subset: "set (dict_set k v m) \<subseteq> insert (k, v) (set m)"
  by (induction m) auto

lemma init_func_map_empty_lines:
  "\<forall>p \<in> set m. d_uncovered_lines (snd p) = [] \<Longrightarrow>
   \<forall>p \<in> set (init_func_map fs m). d_uncovered_lines (snd p) = []"
proof (induction fs arbitrary: m)
  case Nil then show ?case by simp
next
  case (Cons f fs)
  let ?v = "\<lparr>d_start = f_start f, d_end = f_end f, d_uncovered_lines = []\<rparr>"
  have "\<forall>p \<in> set (dict_set (f_name f) ?v m). d_uncovered_lines (snd p) = []"
    using Cons.prems dict_set_subset[of "f_name f" ?v m] by auto
  then show ?case using Cons.IH by simp
qed

lemma map_uncovered_char:
  "map_uncovered_to_functions lns funcs =
     Inr (map (entry_for funcs lns) (init_func_map funcs []), sort (unmatched funcs lns))"
proof -
  let ?m = "init_func_map funcs []"
  have d: "distinct (map fst ?m)" by (rule init_func_map_distinct) simp
  have s: "f_name ` set funcs \<subseteq> fst ` set ?m" by (simp add: init_func_map_keys_set)
  have e: "\<forall>p \<in> set ?m. d_uncovered_lines (snd p) = []"
    by (rule init_func_map_empty_lines) simp
  have "map report_of (map (\<lambda>p. (fst p, (snd p)\<lparr>d_uncovered_lines := d_uncovered_lines (snd p) @ bucket funcs (fst p) lns\<rparr>)) ?m)
      = map (entry_for funcs lns) ?m"
    using e by (simp add: report_of_def entry_for_def Let_def)
  then show ?thesis
    unfolding map_uncovered_to_functions_def attribute_char[OF d s] by simp
qed

lemma bucket_partition:
  "distinct ks \<Longrightarrow>
   (\<Sum>k\<leftarrow>ks. mset (filter (\<lambda>x. g x = Some k) xs)) = mset (filter (\<lambda>x. g x \<in> Some ` set ks) xs)"
proof (induction ks)
  case Nil then show ?case by simp
next
  case (Cons k ks)
  then have "(\<Sum>k\<leftarrow>k # ks. mset (filter (\<lambda>x. g x = Some k) xs))
     = mset (filter (\<lambda>x. g x = Some k) xs) + mset (filter (\<lambda>x. g x \<in> Some ` set ks) xs)"
    by simp
  also have "\<dots> = mset (filter (\<lambda>x. g x \<in> Some ` set (k # ks)) xs)"
    using Cons.prems by (auto simp: multiset_eq_iff)
  finally show ?case .
qed

lemma buckets_conserve:
  assumes "distinct ks" and "f_name ` set funcs \<subseteq> set ks"
  shows "(\<Sum>k\<leftarrow>ks. mset (bucket funcs k lns)) + mset (unmatched funcs lns) = mset lns"
proof -
  have "\<And>ln. map_option f_name (first_match ln funcs) \<in> Some ` set ks \<longleftrightarrow> first_match ln funcs \<noteq> None"
    using assms(2) first_match_mem by (fastforce)
  then have "(\<Sum>k\<leftarrow>ks. mset (bucket funcs k lns)) = mset (filter (\<lambda>ln. first_match ln funcs \<noteq> None) lns)"
    unfolding bucket_def bucket_partition[OF assms(1)] by simp
  then show ?thesis
    unfolding unmatched_def by (simp add: multiset_eq_iff)
qed

lemma sum_counts:
  "sum_list (map (\<lambda>x. int (length (h x))) xs) = int (length (concat (map h xs)))"
  by (induction xs) auto

lemma distinct_index_card:
  "distinct ks \<Longrightarrow> k \<in> set ks \<Longrightarrow> card {i. i < length ks \<and> ks ! i = k} = 1"
proof -
  assume d: "distinct ks" and k: "k \<in> set ks"
  then obtain i where i: "i < length ks" "ks ! i = k" by (auto simp: in_set_conv_nth)
  have "{j. j < length ks \<and> ks ! j = k} = {i}"
    using d i by (auto simp: nth_eq_iff_index_eq)
  then show ?thesis by simp
qed

text \<open>
  Claim C1. For every list of uncovered lines and every list of spans, the call returns
  (it does not raise), the sum of \<^verbatim>\<open>uncovered_count\<close> over the returned entries plus the
  length of the returned \<^verbatim>\<open>others\<close> list is the number of input lines, the returned
  lists together hold the input lines with their multiplicities, and every input line
  stands in exactly one bucket (one entry's list, or \<^verbatim>\<open>others\<close>).
\<close>

theorem map_uncovered_conserves_lines:
  "\<exists>result others.
     map_uncovered_to_functions uncovered_lines funcs = Inr (result, others) \<and>
     sum_list (map r_uncovered_count result) + int (length others) = int (length uncovered_lines) \<and>
     mset (concat (map r_uncovered_lines result)) + mset others = mset uncovered_lines \<and>
     (\<forall>ln \<in> set uncovered_lines.
        card {i. i < length result \<and> ln \<in> set (r_uncovered_lines (result ! i))}
          + (if ln \<in> set others then 1 else 0) = 1)"
proof -
  let ?m = "init_func_map funcs []"
  let ?ks = "map fst ?m"
  let ?res = "map (entry_for funcs uncovered_lines) ?m"
  let ?oth = "sort (unmatched funcs uncovered_lines)"
  have d: "distinct ?ks" by (rule init_func_map_distinct) simp
  have s: "f_name ` set funcs \<subseteq> set ?ks" by (simp add: init_func_map_keys_set)
  have lines: "map r_uncovered_lines ?res = map (\<lambda>k. sort (bucket funcs k uncovered_lines)) ?ks"
    by (simp add: entry_for_def comp_def)
  have counts: "map r_uncovered_count ?res = map (\<lambda>e. int (length (r_uncovered_lines e))) ?res"
    by (simp add: entry_for_def)
  have m: "mset (concat (map r_uncovered_lines ?res)) + mset ?oth = mset uncovered_lines"
    unfolding lines using buckets_conserve[OF d s, of uncovered_lines]
    by (simp add: mset_concat comp_def)
  have c: "sum_list (map r_uncovered_count ?res) + int (length ?oth) = int (length uncovered_lines)"
  proof -
    have "sum_list (map r_uncovered_count ?res) = int (length (concat (map r_uncovered_lines ?res)))"
      unfolding counts by (rule sum_counts)
    moreover have "length (concat (map r_uncovered_lines ?res)) + length ?oth = length uncovered_lines"
      using arg_cong[OF m, of size] by simp
    ultimately show ?thesis by linarith
  qed
  have one: "card {i. i < length ?res \<and> ln \<in> set (r_uncovered_lines (?res ! i))}
          + (if ln \<in> set ?oth then 1 else 0) = 1" if ln: "ln \<in> set uncovered_lines" for ln
  proof (cases "first_match ln funcs")
    case None
    then have "{i. i < length ?res \<and> ln \<in> set (r_uncovered_lines (?res ! i))} = {}"
      by (auto simp: entry_for_def bucket_def)
    moreover have "ln \<in> set ?oth" using None ln by (simp add: unmatched_def)
    ultimately show ?thesis by simp
  next
    case (Some f)
    have kin: "f_name f \<in> set ?ks" using first_match_mem[OF Some] s by auto
    have "{i. i < length ?res \<and> ln \<in> set (r_uncovered_lines (?res ! i))}
        = {i. i < length ?ks \<and> ?ks ! i = f_name f}"
      using Some ln by (auto simp: entry_for_def bucket_def)
    then have "card {i. i < length ?res \<and> ln \<in> set (r_uncovered_lines (?res ! i))} = 1"
      using distinct_index_card[OF d kin] by simp
    moreover have "ln \<notin> set ?oth" using Some by (simp add: unmatched_def)
    ultimately show ?thesis by simp
  qed
  show ?thesis
    unfolding map_uncovered_char using m c one by blast
qed

theorem map_uncovered_conserves_lines_witness:
  "(3::int) \<in> set [3, 12, 3, 20] \<and>
   (\<exists>result others.
      map_uncovered_to_functions [3, 12, 3, 20]
        [\<lparr>f_name = ''a'', f_start = 1, f_body_start = 1, f_end = 5\<rparr>,
         \<lparr>f_name = ''b'', f_start = 10, f_body_start = 11, f_end = 15\<rparr>] = Inr (result, others) \<and>
      sum_list (map r_uncovered_count result) + int (length others) = 4 \<and>
      card {i. i < length result \<and> 3 \<in> set (r_uncovered_lines (result ! i))}
        + (if 3 \<in> set others then 1 else 0) = 1)"
proof -
  let ?fs = "[\<lparr>f_name = ''a'', f_start = 1, f_body_start = 1, f_end = 5\<rparr>,
         \<lparr>f_name = ''b'', f_start = 10, f_body_start = 11, f_end = 15\<rparr>]"
  from map_uncovered_conserves_lines[of "[3, 12, 3, 20]" ?fs]
  obtain result others where
    r: "map_uncovered_to_functions [3, 12, 3, 20] ?fs = Inr (result, others)" and
    c: "sum_list (map r_uncovered_count result) + int (length others) = int (length [3, 12, 3, 20::int])" and
    o: "\<forall>ln \<in> set [3, 12, 3, 20::int].
        card {i. i < length result \<and> ln \<in> set (r_uncovered_lines (result ! i))}
          + (if ln \<in> set others then 1 else 0) = 1"
    by blast
  have "(3::int) \<in> set [3, 12, 3, 20]" by simp
  with o have "card {i. i < length result \<and> 3 \<in> set (r_uncovered_lines (result ! i))}
          + (if 3 \<in> set others then 1 else 0) = 1" by blast
  with r c show ?thesis by auto
qed


lemma first_containing_match:
  "first_containing funcs ln n \<Longrightarrow> first_match ln funcs = Some (funcs ! n)"
proof (induction funcs arbitrary: n)
  case Nil then show ?case by (simp add: first_containing_def)
next
  case (Cons f fs)
  show ?case
  proof (cases n)
    case 0
    with Cons.prems show ?thesis by (simp add: first_containing_def in_span_def)
  next
    case (Suc m)
    with Cons.prems have "\<not> in_span f ln" and "first_containing fs ln m"
      by (auto simp: first_containing_def)
    with Cons.IH[of m] Suc show ?thesis by (auto simp: in_span_def)
  qed
qed

lemma first_match_containing:
  "first_match ln funcs = Some f \<Longrightarrow> \<exists>n. first_containing funcs ln n \<and> funcs ! n = f"
proof (induction funcs)
  case Nil then show ?case by simp
next
  case (Cons g gs)
  show ?case
  proof (cases "in_span g ln")
    case True
    with Cons.prems have "g = f" by (simp add: in_span_def)
    with True have "first_containing (g # gs) ln 0 \<and> (g # gs) ! 0 = f"
      by (simp add: first_containing_def)
    then show ?thesis by blast
  next
    case False
    with Cons.prems have "first_match ln gs = Some f" by (auto simp: in_span_def)
    from Cons.IH[OF this] obtain n where "first_containing gs ln n" "gs ! n = f" by blast
    with False have "first_containing (g # gs) ln (Suc n) \<and> (g # gs) ! Suc n = f"
      by (simp add: first_containing_def)
    then show ?thesis by blast
  qed
qed

lemma bucket_count:
  "count_list (sort (bucket funcs k lns)) ln =
     (if \<exists>n. first_containing funcs ln n \<and> f_name (funcs ! n) = k then count_list lns ln else 0)"
proof -
  have "(map_option f_name (first_match ln funcs) = Some k)
      \<longleftrightarrow> (\<exists>n. first_containing funcs ln n \<and> f_name (funcs ! n) = k)"
    using first_containing_match first_match_containing by fastforce
  moreover have "count_list (sort xs) x = count_list xs x" for xs :: "int list" and x
    by (metis count_mset mset_sort)
  moreover have "count_list (filter P xs) x = (if P x then count_list xs x else 0)" for P and xs :: "int list" and x
    by (induction xs) auto
  ultimately show ?thesis by (simp add: bucket_def)
qed





text \<open>
  Claim C7, as the code has it. \<^verbatim>\<open>sorted\<close> orders a list and keeps its duplicates: every
  entry's \<^verbatim>\<open>uncovered_lines\<close> and the \<^verbatim>\<open>others\<close> list are ascending, and they have no
  duplicates when the input list of uncovered lines has none.
\<close>

theorem map_uncovered_lines_sorted:
  "\<exists>result others.
     map_uncovered_to_functions uncovered_lines funcs = Inr (result, others) \<and>
     (\<forall>e \<in> set result. sorted (r_uncovered_lines e) \<and>
        (distinct uncovered_lines \<longrightarrow> distinct (r_uncovered_lines e))) \<and>
     sorted others \<and> (distinct uncovered_lines \<longrightarrow> distinct others)"
  unfolding map_uncovered_char
  by (auto simp: entry_for_def bucket_def unmatched_def)

theorem map_uncovered_lines_sorted_witness:
  "distinct [9, 3, 4 :: int] \<and>
   (\<exists>result others.
      map_uncovered_to_functions [9, 3, 4]
        [\<lparr>f_name = ''a'', f_start = 1, f_body_start = 1, f_end = 5\<rparr>] = Inr (result, others) \<and>
      result = [\<lparr>r_name = ''a'', r_start = 1, r_end = 5, r_uncovered_count = 2,
                 r_uncovered_lines = [3, 4]\<rparr>] \<and>
      (\<forall>e \<in> set result. sorted (r_uncovered_lines e) \<and> distinct (r_uncovered_lines e)) \<and>
      sorted others)"
proof -
  let ?fs = "[\<lparr>f_name = ''a'', f_start = 1, f_body_start = 1, f_end = 5\<rparr>]"
  have h: "distinct [9, 3, 4 :: int]" by simp
  from map_uncovered_lines_sorted[of "[9, 3, 4]" ?fs]
  obtain result others where
    r: "map_uncovered_to_functions [9, 3, 4] ?fs = Inr (result, others)" and
    a: "\<forall>e \<in> set result. sorted (r_uncovered_lines e) \<and>
        (distinct [9, 3, 4 :: int] \<longrightarrow> distinct (r_uncovered_lines e))" and
    b: "sorted others"
    by blast
  have v: "map_uncovered_to_functions [9, 3, 4] ?fs =
     Inr ([\<lparr>r_name = ''a'', r_start = 1, r_end = 5, r_uncovered_count = 2,
                 r_uncovered_lines = [3, 4]\<rparr>], [9])"
    by (simp add: map_uncovered_to_functions_def report_of_def)
  from a h have "\<forall>e \<in> set result. sorted (r_uncovered_lines e) \<and> distinct (r_uncovered_lines e)"
    by blast
  with r b v h show ?thesis by simp
qed

lemma find_rev_last:
  "find P (rev xs) = (if filter P xs = [] then None else Some (last (filter P xs)))"
  by (induction xs) (auto simp: find_app)

text \<open>
  Claim C10. When two spans of \<^verbatim>\<open>funcs\<close> have the same name, the result has exactly one
  entry of that name; its \<^verbatim>\<open>start\<close> and \<^verbatim>\<open>end\<close> are those of the last span of that
  name, and its \<^verbatim>\<open>uncovered_lines\<close> is the ascending list of the input lines whose first
  containing span has that name, whichever of the same-named spans it is.
\<close>

theorem map_uncovered_same_name_merged:
  assumes "i < j" and "j < length funcs" and "f_name (funcs ! i) = f_name (funcs ! j)"
  shows "\<exists>result others.
     map_uncovered_to_functions uncovered_lines funcs = Inr (result, others) \<and>
     card {n. n < length result \<and> r_name (result ! n) = f_name (funcs ! i)} = 1 \<and>
     (\<forall>e \<in> set result. r_name e = f_name (funcs ! i) \<longrightarrow>
        r_start e = f_start (last (filter (\<lambda>f. f_name f = f_name (funcs ! i)) funcs)) \<and>
        r_end e = f_end (last (filter (\<lambda>f. f_name f = f_name (funcs ! i)) funcs)) \<and>
        sorted (r_uncovered_lines e) \<and>
        r_uncovered_count e = int (length (r_uncovered_lines e)) \<and>
        (\<forall>ln. count_list (r_uncovered_lines e) ln =
           (if \<exists>n. first_containing funcs ln n \<and> f_name (funcs ! n) = f_name (funcs ! i)
            then count_list uncovered_lines ln else 0)))"
proof -
  let ?k = "f_name (funcs ! i)"
  let ?m = "init_func_map funcs []"
  let ?ks = "map fst ?m"
  let ?res = "map (entry_for funcs uncovered_lines) ?m"
  let ?same = "filter (\<lambda>f. f_name f = ?k) funcs"
  have d: "distinct ?ks" by (rule init_func_map_distinct) simp
  have "funcs ! i \<in> set funcs" using assms by simp
  then have kin: "?k \<in> set ?ks" by (simp add: init_func_map_keys_set)
  have ne: "?same \<noteq> []" using \<open>funcs ! i \<in> set funcs\<close> by (auto simp: filter_empty_conv)
  have names: "\<And>n. n < length ?res \<Longrightarrow> r_name (?res ! n) = ?ks ! n"
    by (simp add: entry_for_def)
  have "{n. n < length ?res \<and> r_name (?res ! n) = ?k} = {n. n < length ?ks \<and> ?ks ! n = ?k}"
    using names by auto
  then have one: "card {n. n < length ?res \<and> r_name (?res ! n) = ?k} = 1"
    using distinct_index_card[OF d kin] by simp
  have lk: "map_of ?m ?k = Some \<lparr>d_start = f_start (last ?same), d_end = f_end (last ?same), d_uncovered_lines = []\<rparr>"
    using ne by (simp add: init_func_map_lookup find_rev_last)
  have ent: "r_start e = f_start (last ?same) \<and> r_end e = f_end (last ?same) \<and>
        sorted (r_uncovered_lines e) \<and>
        r_uncovered_count e = int (length (r_uncovered_lines e)) \<and>
        (\<forall>ln. count_list (r_uncovered_lines e) ln =
           (if \<exists>n. first_containing funcs ln n \<and> f_name (funcs ! n) = ?k
            then count_list uncovered_lines ln else 0))"
    if e: "e \<in> set ?res" "r_name e = ?k" for e
  proof -
    from e obtain p where p: "p \<in> set ?m" "e = entry_for funcs uncovered_lines p" by auto
    with e have fp: "fst p = ?k" by (simp add: entry_for_def)
    have "map_of ?m (fst p) = Some (snd p)" using d p(1) by simp
    with lk fp have sp: "snd p = \<lparr>d_start = f_start (last ?same), d_end = f_end (last ?same), d_uncovered_lines = []\<rparr>"
      by simp
    show ?thesis
      unfolding p(2) using sp fp bucket_count[of funcs ?k uncovered_lines]
      by (simp add: entry_for_def)
  qed
  show ?thesis unfolding map_uncovered_char using one ent by blast
qed

theorem map_uncovered_same_name_merged_witness:
  "(0::nat) < 1 \<and>
   (1::nat) < length [\<lparr>f_name = ''f'', f_start = 1, f_body_start = 1, f_end = 2\<rparr>,
                      \<lparr>f_name = ''f'', f_start = 4, f_body_start = 4, f_end = 5\<rparr>] \<and>
   map_uncovered_to_functions [5, 2]
        [\<lparr>f_name = ''f'', f_start = 1, f_body_start = 1, f_end = 2\<rparr>,
         \<lparr>f_name = ''f'', f_start = 4, f_body_start = 4, f_end = 5\<rparr>]
     = Inr ([\<lparr>r_name = ''f'', r_start = 4, r_end = 5, r_uncovered_count = 2,
              r_uncovered_lines = [2, 5]\<rparr>], []) \<and>
   (\<exists>result others.
      map_uncovered_to_functions [5, 2]
        [\<lparr>f_name = ''f'', f_start = 1, f_body_start = 1, f_end = 2\<rparr>,
         \<lparr>f_name = ''f'', f_start = 4, f_body_start = 4, f_end = 5\<rparr>] = Inr (result, others) \<and>
      card {n. n < length result \<and> r_name (result ! n) = ''f''} = 1 \<and>
      (\<forall>e \<in> set result. r_name e = ''f'' \<longrightarrow> r_start e = 4 \<and> r_end e = 5))"
proof -
  let ?fs = "[\<lparr>f_name = ''f'', f_start = 1, f_body_start = 1, f_end = 2\<rparr>,
         \<lparr>f_name = ''f'', f_start = 4, f_body_start = 4, f_end = 5\<rparr>]"
  have h1: "(0::nat) < 1" and h2: "1 < length ?fs" and h3: "f_name (?fs ! 0) = f_name (?fs ! 1)"
    by simp_all
  have v: "map_uncovered_to_functions [5, 2] ?fs
     = Inr ([\<lparr>r_name = ''f'', r_start = 4, r_end = 5, r_uncovered_count = 2,
              r_uncovered_lines = [2, 5]\<rparr>], [])"
    by (simp add: map_uncovered_to_functions_def report_of_def)
  from map_uncovered_same_name_merged[OF h1 h2 h3, of "[5, 2]"]
  obtain result others where
    r: "map_uncovered_to_functions [5, 2] ?fs = Inr (result, others)" and
    c: "card {n. n < length result \<and> r_name (result ! n) = f_name (?fs ! 0)} = 1" and
    a: "\<forall>e \<in> set result. r_name e = f_name (?fs ! 0) \<longrightarrow>
        r_start e = f_start (last (filter (\<lambda>f. f_name f = f_name (?fs ! 0)) ?fs)) \<and>
        r_end e = f_end (last (filter (\<lambda>f. f_name f = f_name (?fs ! 0)) ?fs))"
    by blast
  from a have "\<forall>e \<in> set result. r_name e = ''f'' \<longrightarrow> r_start e = 4 \<and> r_end e = 5" by simp
  moreover from c have "card {n. n < length result \<and> r_name (result ! n) = ''f''} = 1" by simp
  ultimately show ?thesis using r v h1 h2 by blast
qed

section \<open>\<^verbatim>\<open>compress_ranges\<close>\<close>

text \<open>
  \<^verbatim>\<open>coverage_uncovered.py\<close>:
  \<^verbatim>\<open>
  def compress_ranges(lines):
      if not lines:
          return []
      lines = sorted(set(lines))
      ranges = []
      start = prev = lines[0]
      for n in lines[1:]:
          if n == prev + 1:
              prev = n
              continue
          ranges.append((start, prev))
          start = prev = n
      ranges.append((start, prev))
      return ranges
  \<close>
  \<open>compress_loop\<close> is the \<^verbatim>\<open>for\<close> loop with the final \<^verbatim>\<open>append\<close>, on the state
  \<^verbatim>\<open>ranges\<close>, \<^verbatim>\<open>start\<close>, \<^verbatim>\<open>prev\<close>. \<^verbatim>\<open>sorted(set(lines))\<close> is the ascending list of the
  distinct elements; \<^verbatim>\<open>lines[0]\<close> raises \<^verbatim>\<open>IndexError\<close> on an empty list.
\<close>

fun compress_loop :: "int list \<Rightarrow> (int \<times> int) list \<Rightarrow> int \<Rightarrow> int \<Rightarrow> (int \<times> int) list" where
  "compress_loop [] ranges start prev = ranges @ [(start, prev)]"
| "compress_loop (n # ns) ranges start prev =
     (if n = prev + 1 then compress_loop ns ranges start n
      else compress_loop ns (ranges @ [(start, prev)]) n n)"

definition compress_ranges :: "int list \<Rightarrow> py_error + (int \<times> int) list" where
  "compress_ranges lines =
     (if lines = [] then Inr []
      else (case sort (remdups lines) of
              [] \<Rightarrow> Inl IndexError
            | l0 # rest \<Rightarrow> Inr (compress_loop rest [] l0 l0)))"

text \<open>
  \<^verbatim>\<open>map_uncovered_to_functions.py\<close> has the same function with two-element lists
  \<^verbatim>\<open>[start, prev]\<close> in place of the pairs.
\<close>

fun compress_loop2 :: "int list \<Rightarrow> int list list \<Rightarrow> int \<Rightarrow> int \<Rightarrow> int list list" where
  "compress_loop2 [] ranges start prev = ranges @ [[start, prev]]"
| "compress_loop2 (n # ns) ranges start prev =
     (if n = prev + 1 then compress_loop2 ns ranges start n
      else compress_loop2 ns (ranges @ [[start, prev]]) n n)"

definition compress_ranges2 :: "int list \<Rightarrow> py_error + int list list" where
  "compress_ranges2 lines =
     (if lines = [] then Inr []
      else (case sort (remdups lines) of
              [] \<Rightarrow> Inl IndexError
            | l0 # rest \<Rightarrow> Inr (compress_loop2 rest [] l0 l0)))"

text \<open>
  The specification's \<open>expand\<close> flattens ranges back to the integers they cover; two
  ranges could be merged when the second starts at most one past the end of the first.
\<close>

definition expand :: "(int \<times> int) list \<Rightarrow> int list" where
  "expand ranges = concat (map (\<lambda>r. [fst r..snd r]) ranges)"

definition mergeable :: "int \<times> int \<Rightarrow> int \<times> int \<Rightarrow> bool" where
  "mergeable r1 r2 \<longleftrightarrow> fst r2 \<le> snd r1 + 1"

lemma compress_loop_acc:
  "compress_loop xs ranges start prev = ranges @ compress_loop xs [] start prev"
proof (induction xs arbitrary: ranges start prev)
  case Nil then show ?case by simp
next
  case (Cons n ns)
  show ?case
  proof (cases "n = prev + 1")
    case True
    have "compress_loop (n # ns) ranges start prev = compress_loop ns ranges start n"
      using True by simp
    also have "\<dots> = ranges @ compress_loop ns [] start n" by (rule Cons.IH)
    also have "compress_loop ns [] start n = compress_loop (n # ns) [] start prev"
      using True by simp
    finally show ?thesis .
  next
    case False
    have "compress_loop (n # ns) ranges start prev = compress_loop ns (ranges @ [(start, prev)]) n n"
      using False by simp
    also have "\<dots> = (ranges @ [(start, prev)]) @ compress_loop ns [] n n" by (rule Cons.IH)
    also have "\<dots> = ranges @ compress_loop ns [(start, prev)] n n"
      using Cons.IH[of "[(start, prev)]" n n] by simp
    also have "compress_loop ns [(start, prev)] n n = compress_loop (n # ns) [] start prev"
      using False by simp
    finally show ?thesis .
  qed
qed

lemma compress_loop2_eq:
  "compress_loop2 xs (map (\<lambda>r. [fst r, snd r]) ranges) start prev
     = map (\<lambda>r. [fst r, snd r]) (compress_loop xs ranges start prev)"
proof (induction xs arbitrary: ranges start prev)
  case Nil then show ?case by simp
next
  case (Cons n ns)
  show ?case
  proof (cases "n = prev + 1")
    case True
    then show ?thesis using Cons.IH[of ranges start n] by simp
  next
    case False
    then show ?thesis using Cons.IH[of "ranges @ [(start, prev)]" n n] by simp
  qed
qed

lemma compress_loop_inv:
  "sorted xs \<Longrightarrow> distinct xs \<Longrightarrow> \<forall>x \<in> set xs. prev < x \<Longrightarrow> start \<le> prev \<Longrightarrow>
   expand (compress_loop xs [] start prev) = [start..prev] @ xs \<and>
   sorted_wrt (\<lambda>r1 r2. \<not> mergeable r1 r2) (compress_loop xs [] start prev) \<and>
   (\<forall>r \<in> set (compress_loop xs [] start prev). fst r \<le> snd r \<and> start \<le> fst r)"
proof (induction xs arbitrary: start prev)
  case Nil
  then show ?case by (simp add: expand_def)
next
  case (Cons n ns)
  have ns: "sorted ns" "distinct ns" "\<forall>x \<in> set ns. n < x"
    using Cons.prems by (auto simp: less_le)
  show ?case
  proof (cases "n = prev + 1")
    case True
    have "start \<le> n" using True Cons.prems by simp
    from Cons.IH[OF ns this]
    show ?thesis using True Cons.prems(4) by (simp add: upto_rec2)
  next
    case False
    then have gap: "prev + 1 < n" using Cons.prems(3) by auto
    let ?R = "compress_loop ns [] n n"
    from Cons.IH[OF ns, of n]
    have R: "expand ?R = [n..n] @ ns" "sorted_wrt (\<lambda>r1 r2. \<not> mergeable r1 r2) ?R"
         "\<forall>r \<in> set ?R. fst r \<le> snd r \<and> n \<le> fst r" by simp_all
    have eq: "compress_loop (n # ns) [] start prev = (start, prev) # ?R"
      using False compress_loop_acc[of ns "[(start, prev)]" n n] by simp
    show ?thesis unfolding eq using R gap Cons.prems(4)
      by (auto simp: expand_def mergeable_def)
  qed
qed

lemma sort_remdups_Cons:
  "sort (remdups xs) = y # ys \<Longrightarrow> sorted ys \<and> distinct ys \<and> (\<forall>x \<in> set ys. y < x)"
proof -
  assume a: "sort (remdups xs) = y # ys"
  have "sorted (sort (remdups xs))" "distinct (sort (remdups xs))" by simp_all
  then show ?thesis unfolding a by (auto simp: less_le)
qed

text \<open>
  Claim C2. For every list of integers, in any order and with duplicates,
  \<^verbatim>\<open>compress_ranges\<close> returns (both copies of it, with the same ranges); no range can be
  merged with a later one, so the ranges are pairwise non-overlapping and non-adjacent;
  they are ascending, each with \<open>start \<le> end\<close>; flattened they are the ascending list
  of the distinct input numbers, hence cover exactly the set of the input; and the empty
  input gives the empty output.
\<close>

theorem compress_ranges_correct:
  "\<exists>ranges.
     compress_ranges lines = Inr ranges \<and>
     compress_ranges2 lines = Inr (map (\<lambda>r. [fst r, snd r]) ranges) \<and>
     sorted_wrt (\<lambda>r1 r2. \<not> mergeable r1 r2) ranges \<and>
     sorted (map fst ranges) \<and>
     (\<forall>r \<in> set ranges. fst r \<le> snd r) \<and>
     expand ranges = sort (remdups lines) \<and>
     set (expand ranges) = set lines \<and>
     (lines = [] \<longrightarrow> ranges = [])"
proof (cases "lines = []")
  case True
  then show ?thesis by (simp add: compress_ranges_def compress_ranges2_def expand_def)
next
  case False
  then have "sort (remdups lines) \<noteq> []" by (metis set_empty set_remdups set_sort)
  then obtain l0 rest where s: "sort (remdups lines) = l0 # rest" by (cases "sort (remdups lines)") auto
  let ?R = "compress_loop rest [] l0 l0"
  from sort_remdups_Cons[OF s] have p: "sorted rest" "distinct rest" "\<forall>x \<in> set rest. l0 < x" by simp_all
  from compress_loop_inv[OF p, of l0]
  have R: "expand ?R = [l0..l0] @ rest" "sorted_wrt (\<lambda>r1 r2. \<not> mergeable r1 r2) ?R"
       "\<forall>r \<in> set ?R. fst r \<le> snd r \<and> l0 \<le> fst r" by simp_all
  have c1: "compress_ranges lines = Inr ?R" using False s by (simp add: compress_ranges_def)
  have c2: "compress_ranges2 lines = Inr (map (\<lambda>r. [fst r, snd r]) ?R)"
    using False s compress_loop2_eq[of rest "[]" l0 l0] by (simp add: compress_ranges2_def)
  have e: "expand ?R = sort (remdups lines)" using R(1) s by simp
  have st: "set (expand ?R) = set lines" unfolding e by simp
  have srt: "sorted (map fst ?R)"
  proof -
    have "sorted_wrt (\<lambda>r1 r2. fst r1 \<le> fst r2) ?R"
      by (rule sorted_wrt_mono_rel[OF _ R(2)]) (use R(3) in \<open>auto simp: mergeable_def\<close>)
    then show ?thesis by (simp add: sorted_map)
  qed
  show ?thesis using c1 c2 R(2) R(3) e st srt False by auto
qed


theorem compress_ranges_correct_witness:
  "compress_ranges [3, 1, 2, 7, 7, 9, 8, 20] = Inr [(1, 3), (7, 9), (20, 20)] \<and>
   compress_ranges [] = Inr [] \<and>
   (\<exists>ranges. compress_ranges [3, 1, 2, 7, 7, 9, 8, 20] = Inr ranges \<and>
      (1, 3) \<in> set ranges \<and> fst (1::int, 3::int) \<le> snd (1::int, 3::int) \<and>
      set (expand ranges) = {1, 2, 3, 7, 8, 9, 20})"
proof -
  have v: "compress_ranges [3, 1, 2, 7, 7, 9, 8, 20] = Inr [(1, 3), (7, 9), (20, 20)]"
    by (simp add: compress_ranges_def)
  from compress_ranges_correct[of "[]"]
  obtain r0 where e: "compress_ranges [] = Inr r0" "[] = ([]::int list) \<longrightarrow> r0 = []" by blast
  then have e': "compress_ranges [] = Inr []" by simp
  from compress_ranges_correct[of "[3, 1, 2, 7, 7, 9, 8, 20]"]
  obtain ranges where
    r: "compress_ranges [3, 1, 2, 7, 7, 9, 8, 20] = Inr ranges" and
    a: "\<forall>r \<in> set ranges. fst r \<le> snd r" and
    s: "set (expand ranges) = set [3, 1, 2, 7, 7, 9, 8, 20]"
    by blast
  from r v have "ranges = [(1, 3), (7, 9), (20, 20)]" by simp
  then have m: "(1, 3) \<in> set ranges" by simp
  with a have "fst (1::int, 3::int) \<le> snd (1::int, 3::int)" by blast
  moreover from s have "set (expand ranges) = {1, 2, 3, 7, 8, 9, 20}" by auto
  ultimately show ?thesis using v e' r m by blast
qed

section \<open>Python strings\<close>

text \<open>
  The character classes of Python 3 on the code points below 256:
  \<^verbatim>\<open>str.isspace\<close> (also what \<^verbatim>\<open>strip()\<close>, \<^verbatim>\<open>split()\<close> and the pattern \<^verbatim>\<open>\s\<close> use), the line
  boundaries of \<^verbatim>\<open>str.splitlines\<close>, and the decimal digits (the patterns \<^verbatim>\<open>\d\<close> and
  \<^verbatim>\<open>[0-9]\<close> agree below 256).
\<close>

definition is_space :: "char \<Rightarrow> bool" where
  "is_space c \<longleftrightarrow>
     (let n = (of_char c :: nat)
      in (9 \<le> n \<and> n \<le> 13) \<or> (28 \<le> n \<and> n \<le> 32) \<or> n = 133 \<or> n = 160)"

definition is_linebreak :: "char \<Rightarrow> bool" where
  "is_linebreak c \<longleftrightarrow>
     (let n = (of_char c :: nat)
      in (10 \<le> n \<and> n \<le> 13) \<or> (28 \<le> n \<and> n \<le> 30) \<or> n = 133)"

definition is_digit :: "char \<Rightarrow> bool" where
  "is_digit c \<longleftrightarrow> (let n = (of_char c :: nat) in 48 \<le> n \<and> n \<le> 57)"

text \<open>
  \<^verbatim>\<open>str.splitlines()\<close>: the text is cut at every line boundary, \<^verbatim>\<open>\r\n\<close> counting as
  one; the boundaries are dropped, and a text that ends with a boundary has no empty
  last line. \<open>cur\<close> is the line being read.
\<close>

fun splitlines_from :: "string \<Rightarrow> string \<Rightarrow> string list" where
  "splitlines_from cur [] = (if cur = [] then [] else [cur])"
| "splitlines_from cur [c] = (if is_linebreak c then [cur] else [cur @ [c]])"
| "splitlines_from cur (c # d # cs) =
     (if c = CHR 0x0D \<and> d = CHR 0x0A then cur # splitlines_from [] cs
      else if is_linebreak c then cur # splitlines_from [] (d # cs)
      else splitlines_from (cur @ [c]) (d # cs))"

definition splitlines :: "string \<Rightarrow> string list" where
  "splitlines s = splitlines_from [] s"

section \<open>\<^verbatim>\<open>parse_annotated\<close>\<close>

text \<open>
  \<^verbatim>\<open>
  line_rx = re.compile(r"^\s*(\d+)\|\s*([0-9]+)?\|.*$")
  \<close>
  \<open>match_line\<close> is \<^verbatim>\<open>line_rx.match(ln)\<close>: \<open>None\<close> when there is no match, else the two
  groups, the second \<open>None\<close> when the optional group took no part. Spaces, digits and
  \<^verbatim>\<open>|\<close> are disjoint classes, so the greedy match is the only one and the matcher reads
  the line from left to right. \<^verbatim>\<open>.\<close> matches any character but \<^verbatim>\<open>\n\<close> and \<^verbatim>\<open>$\<close> matches at
  the end or before a final \<^verbatim>\<open>\n\<close>: \<open>dot_star_end\<close> is \<^verbatim>\<open>.*$\<close>.
\<close>

definition dot_star_end :: "string \<Rightarrow> bool" where
  "dot_star_end s \<longleftrightarrow> CHR 0x0A \<notin> set (butlast s)"

definition match_line :: "string \<Rightarrow> (string \<times> string option) option" where
  "match_line ln =
     (let s1 = dropWhile is_space ln;
          lineno = takeWhile is_digit s1;
          s2 = dropWhile is_digit s1
      in if lineno = [] then None
         else (case s2 of
                 [] \<Rightarrow> None
               | c # s3 \<Rightarrow>
                   if c \<noteq> CHR ''|'' then None
                   else (let s4 = dropWhile is_space s3;
                             cnt = takeWhile is_digit s4;
                             s5 = dropWhile is_digit s4
                         in (case s5 of
                               [] \<Rightarrow> None
                             | c' # rest \<Rightarrow>
                                 if c' = CHR ''|'' \<and> dot_star_end rest
                                 then Some (lineno, if cnt = [] then None else Some cnt)
                                 else None))))"

text \<open>
  \<^verbatim>\<open>int(s)\<close> on a string of decimal digits, the only kind \<^verbatim>\<open>parse_annotated\<close> passes.
  The value is an unbounded integer, but the interpreter limits the length of a decimal
  string that \<^verbatim>\<open>int\<close> converts: with the default \<^verbatim>\<open>sys.int_max_str_digits\<close> of 4300
  (leading zeros count), a longer string raises \<^verbatim>\<open>ValueError\<close>. Every argument that is
  not a string of digits is a \<^verbatim>\<open>ValueError\<close> here too (Python accepts some more: a sign,
  surrounding spaces, underscores), so the model raises wherever Python does. The
  \<^verbatim>\<open>ValueError\<close> carries the argument.
\<close>

definition decimal :: "string \<Rightarrow> int" where
  "decimal s = foldl (\<lambda>a c. 10 * a + (int (of_char c) - 48)) 0 s"

definition int_max_str_digits :: nat where
  "int_max_str_digits = 4300"

definition py_int :: "string \<Rightarrow> py_error + int" where
  "py_int s =
     (if s \<noteq> [] \<and> list_all is_digit s \<and> length s \<le> int_max_str_digits
      then Inr (decimal s)
      else Inl (ValueError s))"

text \<open>
  \<^verbatim>\<open>
  def parse_annotated(output):
      uncovered = []
      line_rx = re.compile(r"^\s*(\d+)\|\s*([0-9]+)?\|.*$")
      for ln in output.splitlines():
          m = line_rx.match(ln)
          if not m:
              continue
          lineno = int(m.group(1))
          count = m.group(2)
          if count is None:
              continue
          if count == '0':
              uncovered.append(lineno)
      return uncovered
  \<close>
\<close>

fun parse_loop :: "string list \<Rightarrow> int list \<Rightarrow> py_error + int list" where
  "parse_loop [] uncovered = Inr uncovered"
| "parse_loop (ln # lns) uncovered =
     (case match_line ln of
        None \<Rightarrow> parse_loop lns uncovered
      | Some m \<Rightarrow>
          (case py_int (fst m) of
             Inl e \<Rightarrow> Inl e
           | Inr lineno \<Rightarrow>
               (case snd m of
                  None \<Rightarrow> parse_loop lns uncovered
                | Some cnt \<Rightarrow>
                    if cnt = ''0'' then parse_loop lns (uncovered @ [lineno])
                    else parse_loop lns uncovered)))"

definition parse_annotated :: "string \<Rightarrow> py_error + int list" where
  "parse_annotated output = parse_loop (splitlines output) []"


text \<open>
  What the pattern \<^verbatim>\<open><ws>*<lineno>|<count>?|<text>\<close> says of a line, as a decomposition:
  \<open>cnt\<close> is the count field, empty when the count is absent. \<open>line_number\<close> reads the
  number that follows the leading spaces of a line.
\<close>

definition matches_pattern :: "string \<Rightarrow> string \<Rightarrow> string \<Rightarrow> bool" where
  "matches_pattern ln lineno cnt \<longleftrightarrow>
     (\<exists>ws1 ws2 rest.
        ln = ws1 @ lineno @ ''|'' @ ws2 @ cnt @ ''|'' @ rest \<and>
        (\<forall>c \<in> set ws1. is_space c) \<and>
        lineno \<noteq> [] \<and> (\<forall>c \<in> set lineno. is_digit c) \<and>
        (\<forall>c \<in> set ws2. is_space c) \<and>
        (\<forall>c \<in> set cnt. is_digit c) \<and>
        dot_star_end rest)"

definition line_number :: "string \<Rightarrow> int" where
  "line_number ln = decimal (takeWhile is_digit (dropWhile is_space ln))"

lemma digit_not_space: "is_digit c \<Longrightarrow> \<not> is_space c"
  by (auto simp: is_digit_def is_space_def Let_def)

lemma bar_class: "\<not> is_digit CHR ''|''" "\<not> is_space CHR ''|''"
  by (simp_all add: is_digit_def is_space_def)

lemma span_split:
  "\<forall>x \<in> set xs. P x \<Longrightarrow> ys = [] \<or> \<not> P (hd ys) \<Longrightarrow>
   takeWhile P (xs @ ys) = xs \<and> dropWhile P (xs @ ys) = ys"
  by (induction xs) (auto, (cases ys; simp)+)

lemma matches_pattern_match_line:
  assumes "matches_pattern ln lineno cnt"
  shows "match_line ln = Some (lineno, if cnt = [] then None else Some cnt)"
proof -
  from assms obtain ws1 ws2 rest where
    ln: "ln = ws1 @ lineno @ ''|'' @ ws2 @ cnt @ ''|'' @ rest" and
    w1: "\<forall>c \<in> set ws1. is_space c" and
    l: "lineno \<noteq> []" "\<forall>c \<in> set lineno. is_digit c" and
    w2: "\<forall>c \<in> set ws2. is_space c" and
    c: "\<forall>c \<in> set cnt. is_digit c" and
    r: "dot_star_end rest"
    unfolding matches_pattern_def by blast
  let ?t5 = "CHR ''|'' # rest"
  let ?t4 = "cnt @ ?t5"
  let ?t3 = "ws2 @ ?t4"
  let ?t2 = "CHR ''|'' # ?t3"
  let ?t1 = "lineno @ ?t2"
  have ln': "ln = ws1 @ ?t1" using ln by simp
  have "\<not> is_space (hd ?t1)" using l by (cases lineno) (auto simp: digit_not_space)
  then have s1: "dropWhile is_space ln = ?t1"
    unfolding ln' using span_split[OF w1, of ?t1] by simp
  have "\<not> is_digit (hd ?t2)" by (simp add: bar_class)
  then have s2: "takeWhile is_digit ?t1 = lineno" "dropWhile is_digit ?t1 = ?t2"
    using span_split[OF l(2), of ?t2] by simp_all
  have "\<not> is_space (hd ?t4)" using c by (cases cnt) (auto simp: digit_not_space bar_class)
  then have s4: "dropWhile is_space ?t3 = ?t4"
    using span_split[OF w2, of ?t4] by simp
  have "\<not> is_digit (hd ?t5)" by (simp add: bar_class)
  then have s5: "takeWhile is_digit ?t4 = cnt" "dropWhile is_digit ?t4 = ?t5"
    using span_split[OF c, of ?t5] by simp_all
  show ?thesis
    unfolding match_line_def s1 Let_def s2 using l(1) r by (simp add: s4 s5)
qed

lemma match_line_matches_pattern:
  assumes "match_line ln = Some (lineno, c)"
  shows "matches_pattern ln lineno (case c of None \<Rightarrow> [] | Some x \<Rightarrow> x) \<and> c \<noteq> Some []"
proof -
  let ?ws1 = "takeWhile is_space ln"
  let ?s1 = "dropWhile is_space ln"
  let ?s2 = "dropWhile is_digit ?s1"
  from assms have l: "lineno = takeWhile is_digit ?s1" "lineno \<noteq> []"
    by (auto simp: match_line_def Let_def split: if_splits list.splits)
  from assms obtain s3 where s2: "?s2 = CHR ''|'' # s3"
    by (auto simp: match_line_def Let_def split: if_splits list.splits)
  let ?ws2 = "takeWhile is_space s3"
  let ?s4 = "dropWhile is_space s3"
  let ?cnt = "takeWhile is_digit ?s4"
  let ?s5 = "dropWhile is_digit ?s4"
  from assms s2 obtain rest where s5: "?s5 = CHR ''|'' # rest" and r: "dot_star_end rest"
    and c: "c = (if ?cnt = [] then None else Some ?cnt)"
    by (auto simp: match_line_def Let_def split: if_splits list.splits)
  have "ln = ?ws1 @ ?s1" by simp
  also have "?s1 = lineno @ ?s2" unfolding l by simp
  also have "?s2 = ''|'' @ s3" using s2 by simp
  also have "s3 = ?ws2 @ ?s4" by simp
  also have "?s4 = ?cnt @ ?s5" by simp
  also have "?s5 = ''|'' @ rest" using s5 by simp
  finally have ln: "ln = ?ws1 @ lineno @ ''|'' @ ?ws2 @ ?cnt @ ''|'' @ rest" .
  have cc: "(case c of None \<Rightarrow> [] | Some x \<Rightarrow> x) = ?cnt" using c by simp
  have "\<forall>c \<in> set ?ws1. is_space c" "\<forall>c \<in> set lineno. is_digit c"
       "\<forall>c \<in> set ?ws2. is_space c" "\<forall>c \<in> set ?cnt. is_digit c"
    unfolding l by (auto dest: set_takeWhileD)
  then have "matches_pattern ln lineno ?cnt"
    unfolding matches_pattern_def using ln l(2) r by blast
  then show ?thesis using cc c by simp
qed

lemma matches_pattern_unique:
  "matches_pattern ln lineno cnt \<Longrightarrow> matches_pattern ln lineno' cnt' \<Longrightarrow>
   lineno' = lineno \<and> cnt' = cnt"
  using matches_pattern_match_line[of ln lineno cnt] matches_pattern_match_line[of ln lineno' cnt']
  by (auto split: if_splits)

lemma matches_pattern_line_number:
  "matches_pattern ln lineno cnt \<Longrightarrow> line_number ln = decimal lineno"
  using matches_pattern_match_line[of ln lineno cnt]
  by (auto simp: match_line_def line_number_def Let_def split: if_splits list.splits)

lemma matches_pattern_length: "matches_pattern ln lineno cnt \<Longrightarrow> length lineno \<le> length ln"
  by (auto simp: matches_pattern_def)

lemma parse_loop_char:
  "\<forall>ln \<in> set lns. \<forall>lineno cnt. matches_pattern ln lineno cnt \<longrightarrow> length lineno \<le> int_max_str_digits \<Longrightarrow>
   parse_loop lns uncovered =
     Inr (uncovered @ map line_number (filter (\<lambda>ln. \<exists>lineno. matches_pattern ln lineno ''0'') lns))"
proof (induction lns arbitrary: uncovered)
  case Nil then show ?case by simp
next
  case (Cons ln lns)
  have rest: "\<forall>ln \<in> set lns. \<forall>lineno cnt. matches_pattern ln lineno cnt \<longrightarrow> length lineno \<le> int_max_str_digits"
    using Cons.prems by simp
  note IH = Cons.IH[OF rest]
  show ?case
  proof (cases "match_line ln")
    case None
    have "\<not> (\<exists>lineno. matches_pattern ln lineno ''0'')"
      using matches_pattern_match_line[of ln _ "''0''"] None by auto
    then show ?thesis using None IH by simp
  next
    case (Some m)
    obtain lineno c where m: "m = (lineno, c)" by (cases m)
    from match_line_matches_pattern[OF Some[unfolded m]]
    have mp: "matches_pattern ln lineno (case c of None \<Rightarrow> [] | Some x \<Rightarrow> x)" and c0: "c \<noteq> Some []"
      by simp_all
    have dig: "lineno \<noteq> []" "list_all is_digit lineno"
      using mp by (auto simp: matches_pattern_def list_all_iff)
    have "length lineno \<le> int_max_str_digits" using Cons.prems mp by auto
    with dig have pi: "py_int lineno = Inr (decimal lineno)" by (simp add: py_int_def)
    have ln_num: "line_number ln = decimal lineno" by (rule matches_pattern_line_number[OF mp])
    have iff: "(\<exists>l. matches_pattern ln l ''0'') \<longleftrightarrow> c = Some ''0''"
    proof
      assume "\<exists>l. matches_pattern ln l ''0''"
      then obtain l where "matches_pattern ln l ''0''" by blast
      from matches_pattern_unique[OF mp this] c0 show "c = Some ''0''" by (cases c) auto
    next
      assume "c = Some ''0''"
      with mp show "\<exists>l. matches_pattern ln l ''0''" by auto
    qed
    show ?thesis
    proof (cases c)
      case None
      then show ?thesis using Some m pi iff IH by simp
    next
      case (Some cnt)
      then show ?thesis using \<open>match_line ln = Some m\<close> m pi iff ln_num IH by simp
    qed
  qed
qed

lemma parse_loop_raises:
  "ln \<in> set lns \<Longrightarrow> matches_pattern ln lineno cnt \<Longrightarrow> int_max_str_digits < length lineno \<Longrightarrow>
   \<exists>l. int_max_str_digits < length l \<and> parse_loop lns uncovered = Inl (ValueError l)"
proof (induction lns arbitrary: uncovered)
  case Nil then show ?case by simp
next
  case (Cons x xs)
  show ?case
  proof (cases "match_line x")
    case None
    have "x \<noteq> ln" using matches_pattern_match_line[OF Cons.prems(2)] None by auto
    with Cons.prems have "ln \<in> set xs" by simp
    from Cons.IH[OF this Cons.prems(2,3)] show ?thesis using None by simp
  next
    case (Some m)
    obtain l c where m: "m = (l, c)" by (cases m)
    from match_line_matches_pattern[OF Some[unfolded m]]
    have mp: "matches_pattern x l (case c of None \<Rightarrow> [] | Some y \<Rightarrow> y)" by simp
    show ?thesis
    proof (cases "int_max_str_digits < length l")
      case True
      then have "py_int l = Inl (ValueError l)" by (simp add: py_int_def)
      then have "parse_loop (x # xs) uncovered = Inl (ValueError l)" using Some m by simp
      with True show ?thesis by blast
    next
      case False
      have dig: "l \<noteq> []" "list_all is_digit l"
        using mp by (auto simp: matches_pattern_def list_all_iff)
      with False have pi: "py_int l = Inr (decimal l)" by (simp add: py_int_def)
      have "x \<noteq> ln"
      proof
        assume "x = ln"
        with mp Cons.prems(2) have "lineno = l" using matches_pattern_unique by blast
        with False Cons.prems(3) show False by simp
      qed
      with Cons.prems have "ln \<in> set xs" by simp
      from Cons.IH[OF this Cons.prems(2,3)]
      have "\<And>u. \<exists>l. int_max_str_digits < length l \<and> parse_loop xs u = Inl (ValueError l)" .
      then show ?thesis using Some m pi by (cases c) auto
    qed
  qed
qed

lemma splitlines_from_single:
  "\<forall>c \<in> set s. \<not> is_linebreak c \<Longrightarrow>
   splitlines_from cur s = (if cur @ s = [] then [] else [cur @ s])"
proof (induction cur s rule: splitlines_from.induct)
  case (1 cur) then show ?case by simp
next
  case (2 cur c) then show ?case by simp
next
  case (3 cur c d cs)
  have nc: "\<not> is_linebreak c" using "3.prems" by simp
  have ncr: "\<not> (c = CHR 0x0D \<and> d = CHR 0x0A)"
    using nc by (auto simp: is_linebreak_def)
  have rest: "\<forall>c \<in> set (d # cs). \<not> is_linebreak c" using "3.prems" by simp
  have "splitlines_from (cur @ [c]) (d # cs)
      = (if (cur @ [c]) @ d # cs = [] then [] else [(cur @ [c]) @ d # cs])"
    by (rule "3.IH"(3)[OF ncr nc rest])
  then show ?case using nc ncr by simp
qed

text \<open>
  Claim C4, as the code has it. \<^verbatim>\<open>int\<close> is called on the line number of every matched
  line, outside any \<^verbatim>\<open>try\<close>. When no matched line of the text has a line number of more
  than 4300 digits, \<^verbatim>\<open>parse_annotated\<close> returns, and what it returns are the line
  numbers, in order, of exactly the lines that match the pattern with the count field
  \<^verbatim>\<open>0\<close>. A line has at most one reading against the pattern, so a line that does not
  match, a matched line with an absent count and a matched line with any other count (also
  \<^verbatim>\<open>00\<close>) contribute nothing. When some matched line has a longer line number,
  whatever its count, the \<^verbatim>\<open>ValueError\<close> of \<^verbatim>\<open>int\<close> leaves the function.
\<close>

theorem parse_annotated_uncovered:
  "((\<forall>ln \<in> set (splitlines output). \<forall>lineno cnt.
       matches_pattern ln lineno cnt \<longrightarrow> length lineno \<le> int_max_str_digits) \<longrightarrow>
      parse_annotated output =
        Inr (map line_number
               (filter (\<lambda>ln. \<exists>lineno. matches_pattern ln lineno ''0'') (splitlines output)))) \<and>
   ((\<exists>ln \<in> set (splitlines output). \<exists>lineno cnt.
       matches_pattern ln lineno cnt \<and> int_max_str_digits < length lineno) \<longrightarrow>
      (\<exists>l. int_max_str_digits < length l \<and> parse_annotated output = Inl (ValueError l))) \<and>
   (\<forall>ln lineno cnt. matches_pattern ln lineno cnt \<longrightarrow>
      line_number ln = decimal lineno \<and>
      (\<forall>lineno' cnt'. matches_pattern ln lineno' cnt' \<longrightarrow> lineno' = lineno \<and> cnt' = cnt))"
proof (intro conjI allI impI)
  assume "\<forall>ln \<in> set (splitlines output). \<forall>lineno cnt.
       matches_pattern ln lineno cnt \<longrightarrow> length lineno \<le> int_max_str_digits"
  from parse_loop_char[OF this, of "[]"]
  show "parse_annotated output =
     Inr (map line_number
            (filter (\<lambda>ln. \<exists>lineno. matches_pattern ln lineno ''0'') (splitlines output)))"
    by (simp add: parse_annotated_def)
next
  assume "\<exists>ln \<in> set (splitlines output). \<exists>lineno cnt.
       matches_pattern ln lineno cnt \<and> int_max_str_digits < length lineno"
  then obtain ln lineno cnt where "ln \<in> set (splitlines output)"
    "matches_pattern ln lineno cnt" "int_max_str_digits < length lineno" by blast
  from parse_loop_raises[OF this, of "[]"]
  show "\<exists>l. int_max_str_digits < length l \<and> parse_annotated output = Inl (ValueError l)"
    by (simp add: parse_annotated_def)
next
  fix ln lineno cnt
  assume "matches_pattern ln lineno cnt"
  then show "line_number ln = decimal lineno" by (rule matches_pattern_line_number)
next
  fix ln lineno cnt lineno' cnt'
  assume "matches_pattern ln lineno cnt" "matches_pattern ln lineno' cnt'"
  then show "lineno' = lineno" "cnt' = cnt" using matches_pattern_unique by blast+
qed

theorem parse_annotated_uncovered_witness:
  "matches_pattern '' 12|0|x = 1;'' ''12'' ''0'' \<and>
   matches_pattern '' 13|00|y = 1;'' ''13'' ''00'' \<and>
   line_number '' 12|0|x = 1;'' = 12 \<and>
   \<not> matches_pattern '' 13|00|y = 1;'' ''13'' ''0'' \<and>
   parse_annotated ('' 12|0|x = 1;'' @ [CHR 0x0A] @ '' 13|00|y = 1;'' @ [CHR 0x0A] @ ''14| |}'' @ [CHR 0x0A] @ ''header'')
     = Inr [12] \<and>
   matches_pattern (replicate 4301 CHR ''7'' @ ''||x'') (replicate 4301 CHR ''7'') [] \<and>
   int_max_str_digits < length (replicate 4301 CHR ''7'') \<and>
   (\<exists>l. int_max_str_digits < length l \<and>
      parse_annotated (replicate 4301 CHR ''7'' @ ''||x'') = Inl (ValueError l))"
proof -
  let ?text = "'' 12|0|x = 1;'' @ [CHR 0x0A] @ '' 13|00|y = 1;'' @ [CHR 0x0A] @ ''14| |}'' @ [CHR 0x0A] @ ''header''"
  let ?long = "replicate 4301 CHR ''7'' @ ''||x''"
  have m1: "matches_pattern '' 12|0|x = 1;'' ''12'' ''0''"
    unfolding matches_pattern_def
    by (rule exI[of _ "'' ''"], rule exI[of _ "[]"], rule exI[of _ "''x = 1;''"])
       (simp add: is_space_def is_digit_def dot_star_end_def)
  have m2: "matches_pattern '' 13|00|y = 1;'' ''13'' ''00''"
    unfolding matches_pattern_def
    by (rule exI[of _ "'' ''"], rule exI[of _ "[]"], rule exI[of _ "''y = 1;''"])
       (simp add: is_space_def is_digit_def dot_star_end_def)
  have m3: "matches_pattern ?long (replicate 4301 CHR ''7'') []"
    unfolding matches_pattern_def
    by (rule exI[of _ "[]"], rule exI[of _ "[]"], rule exI[of _ "''x''"])
       (simp add: is_digit_def dot_star_end_def)
  have big: "int_max_str_digits < length (replicate 4301 CHR ''7'')"
    by (simp add: int_max_str_digits_def)
  have sl: "splitlines ?text = ['' 12|0|x = 1;'', '' 13|00|y = 1;'', ''14| |}'', ''header'']"
    by (simp add: splitlines_def is_linebreak_def)
  have short: "\<forall>ln \<in> set (splitlines ?text). \<forall>lineno cnt.
       matches_pattern ln lineno cnt \<longrightarrow> length lineno \<le> int_max_str_digits"
    unfolding sl using matches_pattern_length by (fastforce simp: int_max_str_digits_def)
  note t = parse_annotated_uncovered[of ?text]
  note u = conjunct2[OF conjunct2[OF t]]
  from u m1 have "line_number '' 12|0|x = 1;'' = decimal ''12''" by blast
  then have n1: "line_number '' 12|0|x = 1;'' = 12" by (simp add: decimal_def)
  from u m2 have "\<forall>lineno' cnt'. matches_pattern '' 13|00|y = 1;'' lineno' cnt' \<longrightarrow> lineno' = ''13'' \<and> cnt' = ''00''"
    by blast
  then have n2: "\<not> matches_pattern '' 13|00|y = 1;'' ''13'' ''0''" by auto
  have f: "filter (\<lambda>ln. \<exists>lineno. matches_pattern ln lineno ''0'') (splitlines ?text) = ['' 12|0|x = 1;'']"
  proof -
    have a: "\<not> (\<exists>lineno. matches_pattern '' 13|00|y = 1;'' lineno ''0'')"
      using matches_pattern_unique[OF m2] by fastforce
    have b: "\<not> (\<exists>lineno. matches_pattern ''14| |}'' lineno ''0'')"
      using matches_pattern_match_line[of "''14| |}''" _ "''0''"]
      by (auto simp: match_line_def is_space_def is_digit_def dot_star_end_def Let_def)
    have c: "\<not> (\<exists>lineno. matches_pattern ''header'' lineno ''0'')"
      using matches_pattern_match_line[of "''header''" _ "''0''"]
      by (auto simp: match_line_def is_space_def is_digit_def dot_star_end_def Let_def)
    show ?thesis unfolding sl using m1 a b c by auto
  qed
  from mp[OF conjunct1[OF t] short]
  have v: "parse_annotated ?text = Inr [12]" unfolding f using n1 by simp
  have sl2: "splitlines ?long = [?long]"
    unfolding splitlines_def
    by (subst splitlines_from_single) (auto simp: is_linebreak_def)
  have ex: "\<exists>ln \<in> set (splitlines ?long). \<exists>lineno cnt.
       matches_pattern ln lineno cnt \<and> int_max_str_digits < length lineno"
    unfolding sl2 using m3 big by auto
  from mp[OF conjunct1[OF conjunct2[OF parse_annotated_uncovered[of ?long]]] ex]
  have r: "\<exists>l. int_max_str_digits < length l \<and> parse_annotated ?long = Inl (ValueError l)" .
  from m1 m2 n1 n2 v m3 big r show ?thesis by blast
qed

text \<open>
  Claim C4 as the specification states it (\<^verbatim>\<open>parse_annotated\<close> never fails) fails on a
  line whose number has 4301 digits: the line matches the pattern, and \<^verbatim>\<open>int\<close> raises.
\<close>

theorem parse_annotated_raises:
  "parse_annotated (replicate 4301 CHR ''1'' @ ''|0|x'')
     = Inl (ValueError (replicate 4301 CHR ''1''))"
proof -
  let ?d = "replicate 4301 CHR ''1''"
  let ?ln = "?d @ ''|0|x''"
  have "matches_pattern ?ln ?d ''0''"
    unfolding matches_pattern_def
    by (rule exI[of _ "[]"], rule exI[of _ "[]"], rule exI[of _ "''x''"])
       (simp add: is_digit_def dot_star_end_def)
  from matches_pattern_match_line[OF this]
  have ml: "match_line ?ln = Some (?d, Some ''0'')" by simp
  have pi: "py_int ?d = Inl (ValueError ?d)"
    by (simp add: py_int_def int_max_str_digits_def)
  have sl: "splitlines ?ln = [?ln]"
    unfolding splitlines_def
    by (subst splitlines_from_single) (auto simp: is_linebreak_def)
  show ?thesis unfolding parse_annotated_def sl using ml pi by simp
qed

section \<open>\<^verbatim>\<open>extract_report_for_file\<close>\<close>

text \<open>\<^verbatim>\<open>sub in s\<close> on strings: \<open>sub\<close> occurs in \<open>s\<close> as a contiguous piece.\<close>

fun py_in :: "string \<Rightarrow> string \<Rightarrow> bool" where
  "py_in sub [] = (sub = [])"
| "py_in sub (c # cs) = (prefix sub (c # cs) \<or> py_in sub cs)"

text \<open>
  \<^verbatim>\<open>
  pct_rx = re.compile(r"(\d+\.\d+)%")
  pcts = pct_rx.findall(line)
  \<close>
  \<open>pct_match\<close> is a match of the pattern at the start of a string: group 1 and the text
  after the match. Digits, \<^verbatim>\<open>.\<close> and \<^verbatim>\<open>%\<close> are disjoint classes, so only the longest runs of
  digits can match. \<^verbatim>\<open>findall\<close> scans from the left: where the pattern matches it keeps
  group 1 and goes on after the match, elsewhere it moves one character on.
\<close>

definition pct_match :: "string \<Rightarrow> (string \<times> string) option" where
  "pct_match s =
     (let d1 = takeWhile is_digit s;
          s1 = dropWhile is_digit s
      in if d1 = [] then None
         else (case s1 of
                 [] \<Rightarrow> None
               | c # s2 \<Rightarrow>
                   if c \<noteq> CHR ''.'' then None
                   else (let d2 = takeWhile is_digit s2;
                             s3 = dropWhile is_digit s2
                         in if d2 = [] then None
                            else (case s3 of
                                    [] \<Rightarrow> None
                                  | c' # rest \<Rightarrow>
                                      if c' = CHR ''%'' then Some (d1 @ ''.'' @ d2, rest)
                                      else None))))"

lemma pct_match_shorter: "pct_match s = Some (g, rest) \<Longrightarrow> length rest < length s"
proof -
  assume a: "pct_match s = Some (g, rest)"
  have l1: "length (dropWhile is_digit xs) \<le> length xs" for xs by (rule length_dropWhile_le)
  from a obtain s2 where s2: "dropWhile is_digit s = CHR ''.'' # s2"
    by (auto simp: pct_match_def Let_def split: if_splits list.splits)
  from a s2 have s3: "dropWhile is_digit s2 = CHR ''%'' # rest"
    by (auto simp: pct_match_def Let_def split: if_splits list.splits)
  have "length rest < length s2" using l1[of s2] s3 by simp
  moreover have "length s2 < length s" using l1[of s] s2 by simp
  ultimately show ?thesis by simp
qed

function findall_pct :: "string \<Rightarrow> string list" where
  "findall_pct [] = []"
| "findall_pct (c # cs) =
     (case pct_match (c # cs) of
        Some m \<Rightarrow> fst m # findall_pct (snd m)
      | None \<Rightarrow> findall_pct cs)"
  by pat_completeness auto
termination
  by (relation "measure length") (auto dest: pct_match_shorter)

text \<open>
  \<^verbatim>\<open>
  def extract_report_for_file(report_output, filename):
      lines = report_output.splitlines()
      for line in lines:
          if filename in line:
              pct_rx = re.compile(r"(\d+\.\d+)%")
              pcts = pct_rx.findall(line)
              return line, pcts
      return None, []
  \<close>
\<close>

fun find_report_line :: "string \<Rightarrow> string list \<Rightarrow> string option \<times> string list" where
  "find_report_line filename [] = (None, [])"
| "find_report_line filename (line # lines) =
     (if py_in filename line then (Some line, findall_pct line)
      else find_report_line filename lines)"

definition extract_report_for_file :: "string \<Rightarrow> string \<Rightarrow> string option \<times> string list" where
  "extract_report_for_file report_output filename =
     find_report_line filename (splitlines report_output)"


text \<open>
  A percentage token is \<open>digits.digits\<close>; it is found in a line where it is followed by
  \<^verbatim>\<open>%\<close> and is not the tail of a longer run of digits.
\<close>

definition pct_token :: "string \<Rightarrow> bool" where
  "pct_token g \<longleftrightarrow>
     (\<exists>d1 d2. g = d1 @ ''.'' @ d2 \<and> d1 \<noteq> [] \<and> d2 \<noteq> [] \<and>
        (\<forall>c \<in> set d1. is_digit c) \<and> (\<forall>c \<in> set d2. is_digit c))"

definition pct_token_in :: "string \<Rightarrow> string \<Rightarrow> bool" where
  "pct_token_in line g \<longleftrightarrow>
     (\<exists>pre post. line = pre @ g @ ''%'' @ post \<and> pct_token g \<and>
        (pre = [] \<or> \<not> is_digit (last pre)))"

lemma py_in_sublist: "py_in sub s \<longleftrightarrow> sublist sub s"
  by (induction s) (auto simp: sublist_Cons_right)

lemma dot_pct_class: "\<not> is_digit CHR ''.''" "\<not> is_digit CHR ''%''"
  by (simp_all add: is_digit_def)

lemma digits_sep_unique:
  assumes "\<forall>c \<in> set xs. is_digit c" "\<forall>c \<in> set ys. is_digit c" "\<not> is_digit a" "\<not> is_digit b"
    and "xs @ a # r = ys @ b # r'"
  shows "xs = ys \<and> a = b \<and> r = r'"
proof -
  have 1: "takeWhile is_digit (xs @ a # r) = xs" "dropWhile is_digit (xs @ a # r) = a # r"
    using span_split[OF assms(1), of "a # r"] assms(3) by simp_all
  have 2: "takeWhile is_digit (ys @ b # r') = ys" "dropWhile is_digit (ys @ b # r') = b # r'"
    using span_split[OF assms(2), of "b # r'"] assms(4) by simp_all
  from 1 2 assms(5) show ?thesis by simp
qed

lemma pct_match_complete:
  assumes "d1 \<noteq> []" "d2 \<noteq> []" "\<forall>c \<in> set d1. is_digit c" "\<forall>c \<in> set d2. is_digit c"
  shows "pct_match (d1 @ CHR ''.'' # d2 @ CHR ''%'' # rest) = Some (d1 @ CHR ''.'' # d2, rest)"
proof -
  have 1: "takeWhile is_digit (d1 @ CHR ''.'' # d2 @ CHR ''%'' # rest) = d1"
          "dropWhile is_digit (d1 @ CHR ''.'' # d2 @ CHR ''%'' # rest) = CHR ''.'' # d2 @ CHR ''%'' # rest"
    using span_split[OF assms(3), of "CHR ''.'' # d2 @ CHR ''%'' # rest"] dot_pct_class by simp_all
  have 2: "takeWhile is_digit (d2 @ CHR ''%'' # rest) = d2"
          "dropWhile is_digit (d2 @ CHR ''%'' # rest) = CHR ''%'' # rest"
    using span_split[OF assms(4), of "CHR ''%'' # rest"] dot_pct_class by simp_all
  show ?thesis unfolding pct_match_def Let_def 1 using assms(1,2) by (simp add: 2)
qed

lemma pct_match_sound:
  assumes "pct_match s = Some (g, rest)"
  shows "\<exists>d1 d2. s = d1 @ CHR ''.'' # d2 @ CHR ''%'' # rest \<and> g = d1 @ CHR ''.'' # d2 \<and>
           d1 \<noteq> [] \<and> d2 \<noteq> [] \<and> (\<forall>c \<in> set d1. is_digit c) \<and> (\<forall>c \<in> set d2. is_digit c)"
proof -
  let ?d1 = "takeWhile is_digit s"
  from assms have d1: "?d1 \<noteq> []"
    by (auto simp: pct_match_def Let_def split: if_splits list.splits)
  from assms obtain s2 where s2: "dropWhile is_digit s = CHR ''.'' # s2"
    by (auto simp: pct_match_def Let_def split: if_splits list.splits)
  let ?d2 = "takeWhile is_digit s2"
  from assms s2 have d2: "?d2 \<noteq> []" and s3: "dropWhile is_digit s2 = CHR ''%'' # rest"
    and g: "g = ?d1 @ CHR ''.'' # ?d2"
    by (auto simp: pct_match_def Let_def split: if_splits list.splits)
  have "s = ?d1 @ dropWhile is_digit s" by simp
  also have "dropWhile is_digit s = CHR ''.'' # s2" by (rule s2)
  also have "s2 = ?d2 @ dropWhile is_digit s2" by simp
  also have "dropWhile is_digit s2 = CHR ''%'' # rest" by (rule s3)
  finally have "s = ?d1 @ CHR ''.'' # ?d2 @ CHR ''%'' # rest" .
  moreover have "\<forall>c \<in> set ?d1. is_digit c" "\<forall>c \<in> set ?d2. is_digit c"
    by (auto dest: set_takeWhileD)
  ultimately show ?thesis using d1 d2 g by blast
qed

lemma pct_token_inI:
  "s = pre @ d1 @ CHR ''.'' # d2 @ CHR ''%'' # post \<Longrightarrow> d1 \<noteq> [] \<Longrightarrow> d2 \<noteq> [] \<Longrightarrow>
   \<forall>c \<in> set d1. is_digit c \<Longrightarrow> \<forall>c \<in> set d2. is_digit c \<Longrightarrow>
   pre = [] \<or> \<not> is_digit (last pre) \<Longrightarrow> pct_token_in s (d1 @ CHR ''.'' # d2)"
  unfolding pct_token_in_def pct_token_def
  by (rule exI[of _ pre], rule exI[of _ post]) auto

lemma pct_token_inE:
  assumes "pct_token_in s g"
  obtains pre d1 d2 post where
    "s = pre @ d1 @ CHR ''.'' # d2 @ CHR ''%'' # post" "g = d1 @ CHR ''.'' # d2"
    "d1 \<noteq> []" "d2 \<noteq> []" "\<forall>c \<in> set d1. is_digit c" "\<forall>c \<in> set d2. is_digit c"
    "pre = [] \<or> \<not> is_digit (last pre)"
proof -
  from assms obtain pre post where
    1: "s = pre @ g @ ''%'' @ post" "pct_token g" "pre = [] \<or> \<not> is_digit (last pre)"
    unfolding pct_token_in_def by blast
  from 1(2) obtain d1 d2 where
    2: "g = d1 @ ''.'' @ d2" "d1 \<noteq> []" "d2 \<noteq> []"
       "\<forall>c \<in> set d1. is_digit c" "\<forall>c \<in> set d2. is_digit c"
    unfolding pct_token_def by blast
  have "s = pre @ d1 @ CHR ''.'' # d2 @ CHR ''%'' # post" using 1(1) 2(1) by simp
  moreover have "g = d1 @ CHR ''.'' # d2" using 2(1) by simp
  ultimately show thesis using that 2 1(3) by blast
qed

lemma token_in_skip:
  assumes none: "pct_match (c # cs) = None"
  shows "pct_token_in (c # cs) g \<longleftrightarrow> pct_token_in cs g"
proof
  assume "pct_token_in (c # cs) g"
  then obtain pre d1 d2 post where
    s: "c # cs = pre @ d1 @ CHR ''.'' # d2 @ CHR ''%'' # post" and g: "g = d1 @ CHR ''.'' # d2" and
    d: "d1 \<noteq> []" "d2 \<noteq> []" "\<forall>c \<in> set d1. is_digit c" "\<forall>c \<in> set d2. is_digit c" and
    m: "pre = [] \<or> \<not> is_digit (last pre)"
    by (rule pct_token_inE)
  have "pre \<noteq> []"
  proof
    assume "pre = []"
    with s have "pct_match (c # cs) = Some (d1 @ CHR ''.'' # d2, post)"
      using pct_match_complete[OF d, of post] by simp
    with none show False by simp
  qed
  then obtain pre' where pre: "pre = c # pre'" using s by (cases pre) auto
  then have cs: "cs = pre' @ d1 @ CHR ''.'' # d2 @ CHR ''%'' # post" using s by simp
  have "pre' = [] \<or> \<not> is_digit (last pre')" using m pre by (cases pre') auto
  from pct_token_inI[OF cs d this] show "pct_token_in cs g" using g by simp
next
  assume "pct_token_in cs g"
  then obtain pre d1 d2 post where
    s: "cs = pre @ d1 @ CHR ''.'' # d2 @ CHR ''%'' # post" and g: "g = d1 @ CHR ''.'' # d2" and
    d: "d1 \<noteq> []" "d2 \<noteq> []" "\<forall>c \<in> set d1. is_digit c" "\<forall>c \<in> set d2. is_digit c" and
    m: "pre = [] \<or> \<not> is_digit (last pre)"
    by (rule pct_token_inE)
  have s': "c # cs = (c # pre) @ d1 @ CHR ''.'' # d2 @ CHR ''%'' # post" using s by simp
  have "\<not> is_digit (last (c # pre))"
  proof (cases "pre = []")
    case False
    then show ?thesis using m by simp
  next
    case True
    show ?thesis
    proof
      assume "is_digit (last (c # pre))"
      then have cd: "is_digit c" using True by simp
      have "c # cs = (c # d1) @ CHR ''.'' # d2 @ CHR ''%'' # post" using s True by simp
      moreover have "pct_match ((c # d1) @ CHR ''.'' # d2 @ CHR ''%'' # post) = Some ((c # d1) @ CHR ''.'' # d2, post)"
        by (rule pct_match_complete) (use d cd in auto)
      ultimately show False using none by simp
    qed
  qed
  then have "c # pre = [] \<or> \<not> is_digit (last (c # pre))" by simp
  from pct_token_inI[OF s' d this] show "pct_token_in (c # cs) g" using g by simp
qed

lemma token_in_match:
  assumes some: "pct_match s = Some (g0, rest)"
  shows "pct_token_in s g \<longleftrightarrow> g = g0 \<or> pct_token_in rest g"
proof -
  from pct_match_sound[OF some] obtain e1 e2 where
    s: "s = e1 @ CHR ''.'' # e2 @ CHR ''%'' # rest" and g0: "g0 = e1 @ CHR ''.'' # e2" and
    e: "e1 \<noteq> []" "e2 \<noteq> []" "\<forall>c \<in> set e1. is_digit c" "\<forall>c \<in> set e2. is_digit c"
    by blast
  let ?M = "e1 @ CHR ''.'' # e2 @ [CHR ''%'']"
  have sM: "s = ?M @ rest" using s by simp
  show ?thesis
  proof
    assume "g = g0 \<or> pct_token_in rest g"
    then show "pct_token_in s g"
    proof
      assume "g = g0"
      have "s = [] @ e1 @ CHR ''.'' # e2 @ CHR ''%'' # rest" using s by simp
      from pct_token_inI[OF this e] show ?thesis using g0 \<open>g = g0\<close> by simp
    next
      assume "pct_token_in rest g"
      then obtain pre d1 d2 post where
        r: "rest = pre @ d1 @ CHR ''.'' # d2 @ CHR ''%'' # post" and g: "g = d1 @ CHR ''.'' # d2" and
        d: "d1 \<noteq> []" "d2 \<noteq> []" "\<forall>c \<in> set d1. is_digit c" "\<forall>c \<in> set d2. is_digit c" and
        m: "pre = [] \<or> \<not> is_digit (last pre)"
        by (rule pct_token_inE)
      have s': "s = (?M @ pre) @ d1 @ CHR ''.'' # d2 @ CHR ''%'' # post" using sM r by simp
      have "\<not> is_digit (last (?M @ pre))" using m dot_pct_class by (cases "pre = []") auto
      then have "?M @ pre = [] \<or> \<not> is_digit (last (?M @ pre))" by blast
      from pct_token_inI[OF s' d this] show ?thesis using g by simp
    qed
  next
    assume "pct_token_in s g"
    then obtain pre d1 d2 post where
      t: "s = pre @ d1 @ CHR ''.'' # d2 @ CHR ''%'' # post" and g: "g = d1 @ CHR ''.'' # d2" and
      d: "d1 \<noteq> []" "d2 \<noteq> []" "\<forall>c \<in> set d1. is_digit c" "\<forall>c \<in> set d2. is_digit c" and
      m: "pre = [] \<or> \<not> is_digit (last pre)"
      by (rule pct_token_inE)
    let ?Y = "d1 @ CHR ''.'' # d2 @ CHR ''%'' # post"
    show "g = g0 \<or> pct_token_in rest g"
    proof (cases "pre = []")
      case True
      with s t have eq: "e1 @ CHR ''.'' # (e2 @ CHR ''%'' # rest) = d1 @ CHR ''.'' # (d2 @ CHR ''%'' # post)"
        by simp
      from digits_sep_unique[OF e(3) d(3) dot_pct_class(1) dot_pct_class(1) eq]
      have 1: "e1 = d1" "e2 @ CHR ''%'' # rest = d2 @ CHR ''%'' # post" by simp_all
      from digits_sep_unique[OF e(4) d(4) dot_pct_class(2) dot_pct_class(2) 1(2)]
      have "e2 = d2" by simp
      with 1 g g0 show ?thesis by simp
    next
      case False
      with m have nd: "\<not> is_digit (last pre)" by simp
      have lp: "last pre \<in> set pre" using False by simp
      from s t have "e1 @ (CHR ''.'' # e2 @ CHR ''%'' # rest) = pre @ ?Y" by simp
      then obtain us where
        "e1 = pre @ us \<and> us @ (CHR ''.'' # e2 @ CHR ''%'' # rest) = ?Y \<or>
         e1 @ us = pre \<and> CHR ''.'' # e2 @ CHR ''%'' # rest = us @ ?Y"
        unfolding append_eq_append_conv2 by blast
      then have B: "e1 @ us = pre" "CHR ''.'' # e2 @ CHR ''%'' # rest = us @ ?Y"
        using lp nd e(3) by auto
      have "us \<noteq> []" using B(1) nd e(1,3) by auto
      then obtain us' where us: "us = CHR ''.'' # us'" and B2: "e2 @ (CHR ''%'' # rest) = us' @ ?Y"
        using B(2) by (cases us) auto
      from B2 obtain vs where
        "e2 = us' @ vs \<and> vs @ (CHR ''%'' # rest) = ?Y \<or>
         e2 @ vs = us' \<and> CHR ''%'' # rest = vs @ ?Y"
        unfolding append_eq_append_conv2 by blast
      then have C: "e2 @ vs = us'" "CHR ''%'' # rest = vs @ ?Y"
      proof -
        assume a: "e2 = us' @ vs \<and> vs @ (CHR ''%'' # rest) = ?Y \<or>
         e2 @ vs = us' \<and> CHR ''%'' # rest = vs @ ?Y"
        have "\<not> (e2 = us' @ vs \<and> vs @ (CHR ''%'' # rest) = ?Y)"
        proof
          assume b: "e2 = us' @ vs \<and> vs @ (CHR ''%'' # rest) = ?Y"
          have "us' = []"
          proof (rule ccontr)
            assume "us' \<noteq> []"
            then have "last pre = last us'" using B(1) us by auto
            moreover have "last us' \<in> set e2" using b \<open>us' \<noteq> []\<close> by simp
            ultimately show False using nd e(4) by auto
          qed
          with b have "e2 @ CHR ''%'' # rest = d1 @ CHR ''.'' # (d2 @ CHR ''%'' # post)" by simp
          from digits_sep_unique[OF e(4) d(3) dot_pct_class(2) dot_pct_class(1) this]
          show False by simp
        qed
        with a show "e2 @ vs = us'" "CHR ''%'' # rest = vs @ ?Y" by blast+
      qed
      have "vs \<noteq> []"
      proof
        assume "vs = []"
        with C(2) have "CHR ''%'' = hd d1" using d(1) by (cases d1) auto
        then show False using d(1,3) dot_pct_class by (cases d1) auto
      qed
      then obtain vs' where vs: "vs = CHR ''%'' # vs'" and r: "rest = vs' @ ?Y"
        using C(2) by (cases vs) auto
      have pre: "pre = ?M @ vs'" using B(1) us C(1) vs by auto
      have "vs' = [] \<or> \<not> is_digit (last vs')" using nd pre by (cases "vs' = []") auto
      from pct_token_inI[OF r d this] show ?thesis using g by simp
    qed
  qed
qed

lemma findall_pct_tokens: "g \<in> set (findall_pct s) \<longleftrightarrow> pct_token_in s g"
proof (induction s rule: findall_pct.induct)
  case 1
  show ?case by (simp add: pct_token_in_def)
next
  case (2 c cs)
  show ?case
  proof (cases "pct_match (c # cs)")
    case None
    then show ?thesis using 2(1)[OF None] token_in_skip[OF None] by simp
  next
    case (Some m)
    obtain g0 rest where m: "m = (g0, rest)" by (cases m)
    from Some m have pm: "pct_match (c # cs) = Some (g0, rest)" by simp
    show ?thesis using 2(2)[OF Some] token_in_match[OF pm] Some m by auto
  qed
qed

lemma find_report_line_none:
  "\<forall>line \<in> set lines. \<not> py_in filename line \<Longrightarrow> find_report_line filename lines = (None, [])"
  by (induction lines) auto

lemma find_report_line_first:
  "i < length lines \<Longrightarrow> py_in filename (lines ! i) \<Longrightarrow> \<forall>j<i. \<not> py_in filename (lines ! j) \<Longrightarrow>
   find_report_line filename lines = (Some (lines ! i), findall_pct (lines ! i))"
proof (induction lines arbitrary: i)
  case Nil then show ?case by simp
next
  case (Cons l ls)
  show ?case
  proof (cases i)
    case 0
    with Cons.prems show ?thesis by simp
  next
    case (Suc k)
    with Cons.prems have "\<not> py_in filename l" by auto
    moreover have "k < length ls" "py_in filename (ls ! k)" "\<forall>j<k. \<not> py_in filename (ls ! j)"
      using Cons.prems Suc by auto
    ultimately show ?thesis using Cons.IH[of k] Suc by simp
  qed
qed

text \<open>
  Claim C8. When no line of the report contains the file name as a substring, the result is
  \<^verbatim>\<open>(None, [])\<close>, the "not found" outcome. Otherwise the result is the first line that
  contains it, with the list that \<^verbatim>\<open>findall\<close> gives for that line, whose elements are
  exactly the percentage tokens found in the line. The function has no failing branch.
\<close>

theorem extract_report_first_line:
  "((\<forall>line \<in> set (splitlines report_output). \<not> sublist filename line) \<longrightarrow>
      extract_report_for_file report_output filename = (None, [])) \<and>
   (\<forall>i < length (splitlines report_output).
      sublist filename (splitlines report_output ! i) \<and>
      (\<forall>j<i. \<not> sublist filename (splitlines report_output ! j)) \<longrightarrow>
      (\<exists>pcts. extract_report_for_file report_output filename
                 = (Some (splitlines report_output ! i), pcts) \<and>
              pcts = findall_pct (splitlines report_output ! i) \<and>
              set pcts = {g. pct_token_in (splitlines report_output ! i) g}))"
proof (intro conjI allI impI)
  assume "\<forall>line \<in> set (splitlines report_output). \<not> sublist filename line"
  then show "extract_report_for_file report_output filename = (None, [])"
    unfolding extract_report_for_file_def
    by (intro find_report_line_none) (simp add: py_in_sublist)
next
  fix i
  assume i: "i < length (splitlines report_output)"
    and h: "sublist filename (splitlines report_output ! i) \<and>
      (\<forall>j<i. \<not> sublist filename (splitlines report_output ! j))"
  have "extract_report_for_file report_output filename
      = (Some (splitlines report_output ! i), findall_pct (splitlines report_output ! i))"
    unfolding extract_report_for_file_def
    by (rule find_report_line_first[OF i]) (use h in \<open>simp_all add: py_in_sublist\<close>)
  moreover have "set (findall_pct (splitlines report_output ! i))
      = {g. pct_token_in (splitlines report_output ! i) g}"
    using findall_pct_tokens by blast
  ultimately show "\<exists>pcts. extract_report_for_file report_output filename
                 = (Some (splitlines report_output ! i), pcts) \<and>
              pcts = findall_pct (splitlines report_output ! i) \<and>
              set pcts = {g. pct_token_in (splitlines report_output ! i) g}"
    by blast
qed

theorem extract_report_first_line_witness:
  "splitlines (''Filename  Cover'' @ [CHR 0x0A] @ ''src/foo.cpp    85.00%    90.00%'' @ [CHR 0x0A])
     = [''Filename  Cover'', ''src/foo.cpp    85.00%    90.00%''] \<and>
   sublist ''src/foo.cpp'' ''src/foo.cpp    85.00%    90.00%'' \<and>
   \<not> sublist ''src/foo.cpp'' ''Filename  Cover'' \<and>
   \<not> sublist ''src/bar.cpp'' ''Filename  Cover'' \<and>
   \<not> sublist ''src/bar.cpp'' ''src/foo.cpp    85.00%    90.00%'' \<and>
   extract_report_for_file
     (''Filename  Cover'' @ [CHR 0x0A] @ ''src/foo.cpp    85.00%    90.00%'' @ [CHR 0x0A]) ''src/foo.cpp''
     = (Some ''src/foo.cpp    85.00%    90.00%'', [''85.00'', ''90.00'']) \<and>
   extract_report_for_file
     (''Filename  Cover'' @ [CHR 0x0A] @ ''src/foo.cpp    85.00%    90.00%'' @ [CHR 0x0A]) ''src/bar.cpp''
     = (None, [])"
proof -
  let ?r = "''Filename  Cover'' @ [CHR 0x0A] @ ''src/foo.cpp    85.00%    90.00%'' @ [CHR 0x0A]"
  have sl: "splitlines ?r = [''Filename  Cover'', ''src/foo.cpp    85.00%    90.00%'']"
    by (simp add: splitlines_def is_linebreak_def)
  have a: "sublist ''src/foo.cpp'' ''src/foo.cpp    85.00%    90.00%''"
    and b: "\<not> sublist ''src/foo.cpp'' ''Filename  Cover''"
    and c: "\<not> sublist ''src/bar.cpp'' ''Filename  Cover''"
    and d: "\<not> sublist ''src/bar.cpp'' ''src/foo.cpp    85.00%    90.00%''"
    by (simp_all add: py_in_sublist[symmetric])
  have fa: "findall_pct ''src/foo.cpp    85.00%    90.00%'' = [''85.00'', ''90.00'']"
    by (simp add: pct_match_def is_digit_def Let_def)
  note t1 = extract_report_first_line[of ?r "''src/foo.cpp''"]
  note t2 = extract_report_first_line[of ?r "''src/bar.cpp''"]
  have i1: "1 < length (splitlines ?r)" unfolding sl by simp
  have h1: "sublist ''src/foo.cpp'' (splitlines ?r ! 1) \<and>
      (\<forall>j<1. \<not> sublist ''src/foo.cpp'' (splitlines ?r ! j))"
    unfolding sl using a b by simp
  from mp[OF mp[OF spec[OF conjunct2[OF t1], of 1] i1] h1]
  have e1: "extract_report_for_file ?r ''src/foo.cpp''
     = (Some ''src/foo.cpp    85.00%    90.00%'', [''85.00'', ''90.00''])"
    unfolding sl using fa by simp
  have h2: "\<forall>line \<in> set (splitlines ?r). \<not> sublist ''src/bar.cpp'' line"
    unfolding sl using c d by simp
  from mp[OF conjunct1[OF t2] h2]
  have e2: "extract_report_for_file ?r ''src/bar.cpp'' = (None, [])" .
  from sl a b c d e1 e2 show ?thesis by blast
qed

section \<open>\<^verbatim>\<open>find_functions\<close>\<close>

text \<open>
  The word characters of the pattern \<^verbatim>\<open>\w\<close> below 256: the alphanumeric characters and
  the underscore.
\<close>

definition is_word :: "char \<Rightarrow> bool" where
  "is_word c \<longleftrightarrow>
     (let n = (of_char c :: nat)
      in (48 \<le> n \<and> n \<le> 57) \<or> (65 \<le> n \<and> n \<le> 90) \<or> n = 95 \<or> (97 \<le> n \<and> n \<le> 122) \<or>
         n = 170 \<or> n = 178 \<or> n = 179 \<or> n = 181 \<or> n = 185 \<or> n = 186 \<or>
         (188 \<le> n \<and> n \<le> 190) \<or> (192 \<le> n \<and> n \<le> 214) \<or> (216 \<le> n \<and> n \<le> 246) \<or>
         (248 \<le> n \<and> n \<le> 255))"

text \<open>
  \<^verbatim>\<open>s.strip()\<close> removes the spaces at both ends; \<^verbatim>\<open>s.split()\<close> cuts at runs of spaces
  and returns the non-empty pieces (\<open>cur\<close> is the piece being read).
\<close>

definition py_strip :: "string \<Rightarrow> string" where
  "py_strip s = rev (dropWhile is_space (rev (dropWhile is_space s)))"

fun py_split_from :: "string \<Rightarrow> string \<Rightarrow> string list" where
  "py_split_from cur [] = (if cur = [] then [] else [cur])"
| "py_split_from cur (c # cs) =
     (if is_space c then (if cur = [] then py_split_from [] cs else cur # py_split_from [] cs)
      else py_split_from (cur @ [c]) cs)"

definition py_split :: "string \<Rightarrow> string list" where
  "py_split s = py_split_from [] s"

text \<open>
  \<^verbatim>\<open>
  sig_rx = re.compile(r"([\w:\~<>]+)\s*\(")
  m = sig_rx.search(line)
  \<close>
  \<open>sig_match\<close> is a match at the start of a string and returns group 1; the class of the
  group, the spaces and \<^verbatim>\<open>(\<close> are disjoint, so only the longest run of the class can
  match. \<^verbatim>\<open>search\<close> tries every start from the left.
\<close>

definition is_sig_char :: "char \<Rightarrow> bool" where
  "is_sig_char c \<longleftrightarrow> is_word c \<or> c = CHR '':'' \<or> c = CHR ''~'' \<or> c = CHR ''<'' \<or> c = CHR ''>''"

definition sig_match :: "string \<Rightarrow> string option" where
  "sig_match s =
     (let token = takeWhile is_sig_char s;
          rest = dropWhile is_space (dropWhile is_sig_char s)
      in if token = [] then None
         else (case rest of
                 [] \<Rightarrow> None
               | c # _ \<Rightarrow> if c = CHR ''('' then Some token else None))"

fun sig_search :: "string \<Rightarrow> string option" where
  "sig_search [] = None"
| "sig_search (c # cs) =
     (case sig_match (c # cs) of
        Some token \<Rightarrow> Some token
      | None \<Rightarrow> sig_search cs)"

text \<open>
  \<^verbatim>\<open>token.split('::')[-1]\<close>: the text after the last of the occurrences of \<^verbatim>\<open>::\<close> that
  \<^verbatim>\<open>split\<close> finds from the left, the whole token when there is none.
\<close>

fun last_segment_from :: "string \<Rightarrow> string \<Rightarrow> string" where
  "last_segment_from cur [] = cur"
| "last_segment_from cur [c] = cur @ [c]"
| "last_segment_from cur (c # d # cs) =
     (if c = CHR '':'' \<and> d = CHR '':'' then last_segment_from [] cs
      else last_segment_from (cur @ [c]) (d # cs))"

text \<open>
  \<^verbatim>\<open>
  m = sig_rx.search(line)
  if m:
      token = m.group(1)
      fname = token.split('::')[-1]
  else:
      before = line.split('(')[0]
      parts = before.strip().split()
      fname = parts[-1] if parts else 'unknown'
  \<close>
  \<^verbatim>\<open>line.split('(')[0]\<close> is the text before the first \<^verbatim>\<open>(\<close>.
\<close>

definition extract_name :: "string \<Rightarrow> string" where
  "extract_name line =
     (case sig_search line of
        Some token \<Rightarrow> last_segment_from [] token
      | None \<Rightarrow>
          (let before_text = takeWhile (\<lambda>c. c \<noteq> CHR ''('') line;
               parts = py_split (py_strip before_text)
           in if parts \<noteq> [] then last parts else ''unknown''))"

definition control_kw :: "string set" where
  "control_kw = {''if'', ''for'', ''while'', ''switch'', ''catch'', ''else''}"

text \<open>
  \<^verbatim>\<open>
  brace_line = None
  if '{' in line:
      brace_line = i
  else:
      for j in range(i+1, min(i+6, n)):
          if '{' in source_lines[j]:
              brace_line = j
              break
  \<close>
\<close>

definition find_brace_line :: "string list \<Rightarrow> nat \<Rightarrow> nat option" where
  "find_brace_line source_lines i =
     (if py_in ''{'' (source_lines ! i) then Some i
      else find (\<lambda>j. py_in ''{'' (source_lines ! j)) [i + 1 ..< min (i + 6) (length source_lines)])"

text \<open>
  \<^verbatim>\<open>
  brace_count = 0
  end_line = brace_line
  for k in range(brace_line, n):
      brace_count += source_lines[k].count('{')
      brace_count -= source_lines[k].count('}')
      end_line = k
      if brace_count == 0:
          break
  \<close>
  The first argument holds the lines from \<open>k\<close> on; the result is \<^verbatim>\<open>end_line\<close>.
\<close>

fun match_braces :: "string list \<Rightarrow> nat \<Rightarrow> int \<Rightarrow> nat \<Rightarrow> nat" where
  "match_braces [] k brace_count end_line = end_line"
| "match_braces (l # ls) k brace_count end_line =
     (let brace_count' = brace_count + int (count_list l CHR ''{'') - int (count_list l CHR ''}'')
      in if brace_count' = 0 then k else match_braces ls (k + 1) brace_count' k)"

lemma find_Some_set: "find P xs = Some x \<Longrightarrow> x \<in> set xs \<and> P x"
  by (induction xs) (auto split: if_splits)

lemma find_brace_line_bounds:
  "find_brace_line source_lines i = Some b \<Longrightarrow> i < length source_lines \<Longrightarrow>
   i \<le> b \<and> b < length source_lines \<and> b \<le> i + 5"
  by (auto simp: find_brace_line_def split: if_splits dest!: find_Some_set)

lemma match_braces_bounds:
  "b \<le> k \<Longrightarrow> b \<le> e \<Longrightarrow> e < k + length ls \<Longrightarrow>
   b \<le> match_braces ls k bc e \<and> match_braces ls k bc e < k + length ls"
proof (induction ls arbitrary: k bc e)
  case Nil then show ?case by simp
next
  case (Cons l ls)
  show ?case
    using Cons.prems Cons.IH[of "k + 1" k] by (auto simp: Let_def)
qed

text \<open>
  The \<^verbatim>\<open>while i < n\<close> loop of \<^verbatim>\<open>find_functions\<close>, on the state \<open>i\<close>, \<^verbatim>\<open>funcs\<close>. A line
  that is skipped moves \<open>i\<close> one on; a recorded span moves it past \<^verbatim>\<open>end_line\<close>.
  \<^verbatim>\<open>
  line = source_lines[i]
  stripped = line.strip()
  if stripped.startswith('#') or stripped.startswith('//'):
      i += 1
      continue
  if '(' in line and ')' in line and not stripped.endswith(';'):
      first_word = stripped.split()[0] if stripped.split() else ''
      if first_word in control_kw:
          i += 1
          continue
      ...
      if brace_line is not None:
          ...
          funcs.append({'name': fname, 'start': i+1, 'body_start': brace_line+1, 'end': end_line+1})
          i = end_line + 1
          continue
  i += 1
  \<close>
\<close>

function find_from :: "string list \<Rightarrow> nat \<Rightarrow> func list \<Rightarrow> func list" where
  "find_from source_lines i funcs =
     (if i < length source_lines then
        (let line = source_lines ! i;
             stripped = py_strip line
         in if prefix ''#'' stripped \<or> prefix ''//'' stripped
            then find_from source_lines (i + 1) funcs
            else if py_in ''('' line \<and> py_in '')'' line \<and> \<not> suffix '';'' stripped
            then (let first_word = (case py_split stripped of [] \<Rightarrow> [] | w # ws \<Rightarrow> w)
                  in if first_word \<in> control_kw
                     then find_from source_lines (i + 1) funcs
                     else (case find_brace_line source_lines i of
                             Some brace_line \<Rightarrow>
                               (let fname = extract_name line;
                                    end_line = match_braces (drop brace_line source_lines)
                                                 brace_line 0 brace_line
                                in find_from source_lines (end_line + 1)
                                     (funcs @ [\<lparr>f_name = fname, f_start = int i + 1,
                                                f_body_start = int brace_line + 1,
                                                f_end = int end_line + 1\<rparr>]))
                           | None \<Rightarrow> find_from source_lines (i + 1) funcs))
            else find_from source_lines (i + 1) funcs)
      else funcs)"
  by pat_completeness auto
termination
proof (relation "measure (\<lambda>(source_lines, i, funcs). length source_lines - i)", simp_all)
  fix source_lines :: "string list" and i brace_line :: nat
  assume i: "i < length source_lines" and b: "find_brace_line source_lines i = Some brace_line"
  let ?end_line = "match_braces (drop brace_line source_lines) brace_line 0 brace_line"
  from find_brace_line_bounds[OF b i]
  have 1: "i \<le> brace_line" "brace_line < length source_lines" by simp_all
  then have "brace_line \<le> ?end_line"
    using match_braces_bounds[of brace_line brace_line brace_line "drop brace_line source_lines" 0]
    by simp
  with 1 i show "length source_lines - Suc ?end_line < length source_lines - i" by simp
qed

declare find_from.simps [simp del]

definition find_functions :: "string list \<Rightarrow> func list" where
  "find_functions source_lines = find_from source_lines 0 []"

text \<open>
  A span found from line index \<open>i\<close> of a source of \<open>n\<close> lines starts after \<open>i\<close> lines,
  is ordered as \<open>start \<le> body_start \<le> end\<close> and ends within the source.
\<close>

definition span_ok :: "nat \<Rightarrow> nat \<Rightarrow> func \<Rightarrow> bool" where
  "span_ok i n f \<longleftrightarrow>
     int i + 1 \<le> f_start f \<and> f_start f \<le> f_body_start f \<and> f_body_start f \<le> f_end f \<and>
     f_end f \<le> int n"

lemma span_ok_mono: "i \<le> j \<Longrightarrow> span_ok j n f \<Longrightarrow> span_ok i n f"
  by (simp add: span_ok_def)

lemma find_from_inv:
  "\<exists>new. find_from source_lines i funcs = funcs @ new \<and>
     (\<forall>f \<in> set new. span_ok i (length source_lines) f) \<and>
     sorted_wrt (\<lambda>f g. f_end f < f_start g) new"
proof (induction source_lines i funcs rule: find_from.induct)
  case (1 source_lines i funcs)
  let ?n = "length source_lines"
  let ?lt = "\<lambda>f g. f_end f < f_start g"
  have weaken: "\<exists>new. r = funcs @ new \<and> (\<forall>f \<in> set new. span_ok i ?n f) \<and> sorted_wrt ?lt new"
    if "\<exists>new. r = funcs @ new \<and> (\<forall>f \<in> set new. span_ok (i + 1) ?n f) \<and> sorted_wrt ?lt new" for r
  proof -
    from that obtain new where n: "r = funcs @ new" "\<forall>f \<in> set new. span_ok (i + 1) ?n f"
      "sorted_wrt ?lt new" by blast
    have "\<forall>f \<in> set new. span_ok i ?n f"
    proof
      fix f assume "f \<in> set new"
      with n(2) have "span_ok (i + 1) ?n f" by blast
      then show "span_ok i ?n f" by (rule span_ok_mono[rotated]) simp
    qed
    with n show ?thesis by blast
  qed
  show ?case
  proof (cases "i < ?n")
    case False
    then show ?thesis by (subst find_from.simps) simp
  next
    case lt: True
    let ?line = "source_lines ! i"
    let ?stripped = "py_strip ?line"
    show ?thesis
    proof (cases "prefix ''#'' ?stripped \<or> prefix ''//'' ?stripped")
      case True
      have "find_from source_lines i funcs = find_from source_lines (i + 1) funcs"
        using lt True by (subst find_from.simps) (auto simp: Let_def)
      with weaken[OF "1.IH"(1)[OF lt refl refl True]] show ?thesis by simp
    next
      case nc: False
      show ?thesis
      proof (cases "py_in ''('' ?line \<and> py_in '')'' ?line \<and> \<not> suffix '';'' ?stripped")
        case False
        have "find_from source_lines i funcs = find_from source_lines (i + 1) funcs"
          using lt nc False by (subst find_from.simps) (auto simp: Let_def)
        with weaken[OF "1.IH"(5)[OF lt refl refl nc False]] show ?thesis by simp
      next
        case cand: True
        let ?first_word = "case py_split ?stripped of [] \<Rightarrow> [] | w # ws \<Rightarrow> w"
        show ?thesis
        proof (cases "?first_word \<in> control_kw")
          case True
          have "find_from source_lines i funcs = find_from source_lines (i + 1) funcs"
            using lt nc cand True by (subst find_from.simps) (auto simp: Let_def)
          with weaken[OF "1.IH"(2)[OF lt refl refl nc cand refl True]] show ?thesis by simp
        next
          case nk: False
          show ?thesis
          proof (cases "find_brace_line source_lines i")
            case None
            have "find_from source_lines i funcs = find_from source_lines (i + 1) funcs"
              using lt nc cand nk None by (subst find_from.simps) (auto simp: Let_def)
            with weaken[OF "1.IH"(3)[OF lt refl refl nc cand refl nk None]] show ?thesis by simp
          next
            case (Some brace_line)
            let ?end_line = "match_braces (drop brace_line source_lines) brace_line 0 brace_line"
            let ?f = "\<lparr>f_name = extract_name ?line, f_start = int i + 1,
                       f_body_start = int brace_line + 1, f_end = int ?end_line + 1\<rparr>"
            from find_brace_line_bounds[OF Some lt]
            have b: "i \<le> brace_line" "brace_line < ?n" by simp_all
            have e: "brace_line \<le> ?end_line" "?end_line < ?n"
              using match_braces_bounds[of brace_line brace_line brace_line "drop brace_line source_lines" 0] b
              by simp_all
            have eq: "find_from source_lines i funcs = find_from source_lines (?end_line + 1) (funcs @ [?f])"
              using lt nc cand nk Some by (subst find_from.simps) (auto simp: Let_def)
            from "1.IH"(4)[OF lt refl refl nc cand refl nk Some refl refl]
            obtain new where new: "find_from source_lines (?end_line + 1) (funcs @ [?f]) = (funcs @ [?f]) @ new"
              "\<forall>f \<in> set new. span_ok (?end_line + 1) ?n f" "sorted_wrt ?lt new"
              by blast
            have "find_from source_lines i funcs = funcs @ (?f # new)" using eq new(1) by simp
            moreover have "span_ok i ?n ?f" using b e by (simp add: span_ok_def)
            moreover have "\<forall>f \<in> set new. span_ok i ?n f"
            proof
              fix f assume "f \<in> set new"
              with new(2) have "span_ok (?end_line + 1) ?n f" by blast
              then show "span_ok i ?n f" by (rule span_ok_mono[rotated]) (use b e in simp)
            qed
            moreover have "\<forall>g \<in> set new. f_end ?f < f_start g"
              using new(2) by (auto simp: span_ok_def)
            ultimately show ?thesis using new(3) by (intro exI[of _ "?f # new"]) simp
          qed
        qed
      qed
    qed
  qed
qed

text \<open>
  Claim C6. For every list of source lines, every span that \<^verbatim>\<open>find_functions\<close> returns has
  \<open>start \<le> body_start \<le> end\<close> (and lies within the lines \<open>1 .. n\<close>), and the spans are
  in source order and do not overlap: each span starts strictly after the end of every span
  before it in the list.
\<close>

theorem find_functions_spans:
  "(\<forall>f \<in> set (find_functions source_lines).
      1 \<le> f_start f \<and> f_start f \<le> f_body_start f \<and> f_body_start f \<le> f_end f \<and>
      f_end f \<le> int (length source_lines)) \<and>
   sorted_wrt (\<lambda>f g. f_end f < f_start g) (find_functions source_lines)"
  using find_from_inv[of source_lines 0 "[]"]
  by (auto simp: find_functions_def span_ok_def)

theorem find_functions_spans_witness:
  "find_functions [''int f() {'', ''  return 1;'', ''}'', ''void A::g(int a)'', ''{'', ''}'']
     = [\<lparr>f_name = ''f'', f_start = 1, f_body_start = 1, f_end = 3\<rparr>,
        \<lparr>f_name = ''g'', f_start = 4, f_body_start = 5, f_end = 6\<rparr>] \<and>
   \<lparr>f_name = ''g'', f_start = 4, f_body_start = 5, f_end = 6\<rparr>
     \<in> set (find_functions [''int f() {'', ''  return 1;'', ''}'', ''void A::g(int a)'', ''{'', ''}'']) \<and>
   f_start \<lparr>f_name = ''g'', f_start = 4, f_body_start = 5, f_end = 6\<rparr>
     \<le> f_body_start \<lparr>f_name = ''g'', f_start = 4, f_body_start = 5, f_end = 6\<rparr> \<and>
   f_body_start \<lparr>f_name = ''g'', f_start = 4, f_body_start = 5, f_end = 6\<rparr>
     \<le> f_end \<lparr>f_name = ''g'', f_start = 4, f_body_start = 5, f_end = 6\<rparr> \<and>
   sorted_wrt (\<lambda>f g. f_end f < f_start g)
     (find_functions [''int f() {'', ''  return 1;'', ''}'', ''void A::g(int a)'', ''{'', ''}''])"
proof -
  let ?src = "[''int f() {'', ''  return 1;'', ''}'', ''void A::g(int a)'', ''{'', ''}'']"
  let ?g = "\<lparr>f_name = ''g'', f_start = 4, f_body_start = 5, f_end = 6\<rparr>"
  have v: "find_functions ?src
     = [\<lparr>f_name = ''f'', f_start = 1, f_body_start = 1, f_end = 3\<rparr>, ?g]"
    by code_simp
  then have m: "?g \<in> set (find_functions ?src)" by simp
  note t = find_functions_spans[of ?src]
  from bspec[OF conjunct1[OF t] m]
  have "f_start ?g \<le> f_body_start ?g" "f_body_start ?g \<le> f_end ?g" by blast+
  with v m conjunct2[OF t] show ?thesis by blast
qed

text \<open>
  Claim C3 (one entry per discovered span) at two overloads of one function. The script's
  own description says that it counts the uncovered lines that fall inside each function
  span, but \<^verbatim>\<open>func_map\<close> is keyed by the name alone: \<^verbatim>\<open>find_functions\<close> discovers two
  spans here, both named \<^verbatim>\<open>f\<close>, and the result has a single entry, which carries the
  bounds \<open>3..4\<close> of the second span and counts line 2 of the first.
\<close>

theorem map_uncovered_overloads_one_entry:
  "find_functions [''void f(int a) {'', ''}'', ''void f(double a) {'', ''}'']
     = [\<lparr>f_name = ''f'', f_start = 1, f_body_start = 1, f_end = 2\<rparr>,
        \<lparr>f_name = ''f'', f_start = 3, f_body_start = 3, f_end = 4\<rparr>] \<and>
   map_uncovered_to_functions [2, 4]
     [\<lparr>f_name = ''f'', f_start = 1, f_body_start = 1, f_end = 2\<rparr>,
      \<lparr>f_name = ''f'', f_start = 3, f_body_start = 3, f_end = 4\<rparr>]
     = Inr ([\<lparr>r_name = ''f'', r_start = 3, r_end = 4, r_uncovered_count = 2,
              r_uncovered_lines = [2, 4]\<rparr>], [])"
proof -
  have "find_functions [''void f(int a) {'', ''}'', ''void f(double a) {'', ''}'']
     = [\<lparr>f_name = ''f'', f_start = 1, f_body_start = 1, f_end = 2\<rparr>,
        \<lparr>f_name = ''f'', f_start = 3, f_body_start = 3, f_end = 4\<rparr>]"
    by code_simp
  moreover have "map_uncovered_to_functions [2, 4]
     [\<lparr>f_name = ''f'', f_start = 1, f_body_start = 1, f_end = 2\<rparr>,
      \<lparr>f_name = ''f'', f_start = 3, f_body_start = 3, f_end = 4\<rparr>]
     = Inr ([\<lparr>r_name = ''f'', r_start = 3, r_end = 4, r_uncovered_count = 2,
              r_uncovered_lines = [2, 4]\<rparr>], [])"
    by (simp add: map_uncovered_to_functions_def report_of_def)
  ultimately show ?thesis by (rule conjI)
qed

section \<open>\<^verbatim>\<open>get_uncovered\<close>\<close>









section \<open>Repeated line numbers\<close>

text \<open>
  Claim C7 as the specification states it (the lines of an entry are unique) fails on an
  input that repeats a line. \<^verbatim>\<open>parse_annotated\<close> returns such a list for an annotated
  text that shows line 5 twice, and both occurrences stand in the entry.
\<close>

theorem map_uncovered_duplicate_lines:
  "parse_annotated (''5|0|x'' @ [CHR 0x0A] @ ''5|0|x'' @ [CHR 0x0A]) = Inr [5, 5] \<and>
   map_uncovered_to_functions [5, 5]
     [\<lparr>f_name = ''f'', f_start = 1, f_body_start = 1, f_end = 10\<rparr>]
     = Inr ([\<lparr>r_name = ''f'', r_start = 1, r_end = 10, r_uncovered_count = 2,
              r_uncovered_lines = [5, 5]\<rparr>], []) \<and>
   \<not> distinct (r_uncovered_lines \<lparr>r_name = ''f'', r_start = 1, r_end = 10, r_uncovered_count = 2,
              r_uncovered_lines = [5, 5]\<rparr>)"
proof -
  have "parse_annotated (''5|0|x'' @ [CHR 0x0A] @ ''5|0|x'' @ [CHR 0x0A]) = Inr [5, 5]"
    by (simp add: parse_annotated_def splitlines_def match_line_def py_int_def int_max_str_digits_def decimal_def
          is_space_def is_digit_def is_linebreak_def dot_star_end_def Let_def)
  moreover have "map_uncovered_to_functions [5, 5]
     [\<lparr>f_name = ''f'', f_start = 1, f_body_start = 1, f_end = 10\<rparr>]
     = Inr ([\<lparr>r_name = ''f'', r_start = 1, r_end = 10, r_uncovered_count = 2,
              r_uncovered_lines = [5, 5]\<rparr>], [])"
    by (simp add: map_uncovered_to_functions_def report_of_def)
  ultimately show ?thesis by simp
qed

end
